theory Spec2Isabelle
  imports Main "HOL-Library.Word" "HOL-Library.Multiset"
    "HOL-Library.Product_Lexorder" "HOL-Library.List_Lexorder"
begin

unbundle bit_operations_syntax

section \<open>Python values: strings, bytes and exceptions\<close>

text \<open>
  A Python \<open>str\<close> is a sequence of Unicode code points, a \<open>bytes\<close> object a sequence of
  integers below 256. Both are lists of naturals here, so that \<open>length\<close> of a string counts
  code points and \<open>length\<close> of its encoding counts octets, as \<open>len\<close> does in \<open>main.py\<close>.
\<close>

type_synonym pystr = "nat list"
type_synonym bytes = "nat list"

text \<open>An ASCII literal of the source, as a Python string.\<close>

definition str :: "string \<Rightarrow> pystr" where
  "str s = map of_char s"

text \<open>The exceptions the program can raise, as values.\<close>

datatype error =
    UnicodeEncodeError
  | UnicodeDecodeError
  | KeyError pystr
  | ValueError
  | TypeError
  | FileNotFoundError nat

text \<open>\<open>sep.join(parts)\<close> for a list of strings.\<close>

fun join :: "'a list \<Rightarrow> 'a list list \<Rightarrow> 'a list" where
  "join sep [] = []"
| "join sep [x] = x"
| "join sep (x # y # ys) = x @ sep @ join sep (y # ys)"

subsection \<open>\<open>str.encode("utf-8")\<close> and \<open>bytes.decode("utf-8")\<close>\<close>

text \<open>
  The encoder refuses a lone surrogate (\<open>U+D800\<close> to \<open>U+DFFF\<close>), as CPython's strict error
  handler does. A value from \<open>0x110000\<close> on is not a code point (\<open>chr\<close> refuses it), so no
  Python string holds one; the encoder refuses it as well.
\<close>

definition utf8_char :: "nat \<Rightarrow> error + bytes" where
  "utf8_char c =
     (if c < 0x80 then Inr [c]
      else if c < 0x800 then Inr [0xC0 + c div 64, 0x80 + c mod 64]
      else if c < 0x10000 then
        (if 0xD800 \<le> c \<and> c \<le> 0xDFFF then Inl UnicodeEncodeError
         else Inr [0xE0 + c div 4096, 0x80 + c div 64 mod 64, 0x80 + c mod 64])
      else if c < 0x110000 then
        Inr [0xF0 + c div 262144, 0x80 + c div 4096 mod 64, 0x80 + c div 64 mod 64,
             0x80 + c mod 64]
      else Inl UnicodeEncodeError)"

fun utf8_encode :: "pystr \<Rightarrow> error + bytes" where
  "utf8_encode [] = Inr []"
| "utf8_encode (c # cs) =
     (case utf8_char c of
        Inl e \<Rightarrow> Inl e
      | Inr bs \<Rightarrow> (case utf8_encode cs of Inl e \<Rightarrow> Inl e | Inr r \<Rightarrow> Inr (bs @ r)))"

text \<open>A continuation byte has the top two bits \<open>10\<close>: the test of \<open>ics_fold_line\<close>.\<close>

definition is_continuation :: "nat \<Rightarrow> bool" where
  "is_continuation b = (b AND 0xC0 = 0x80)"

text \<open>
  The strict decoder: a truncated sequence, a stray continuation byte, an overlong form, a
  surrogate and a value above \<open>U+10FFFF\<close> all raise \<open>UnicodeDecodeError\<close>.
\<close>

definition cons_ok :: "nat \<Rightarrow> error + pystr \<Rightarrow> error + pystr" where
  "cons_ok c r = (case r of Inl e \<Rightarrow> Inl e | Inr s \<Rightarrow> Inr (c # s))"

fun utf8_decode :: "bytes \<Rightarrow> error + pystr" where
  "utf8_decode [] = Inr []"
| "utf8_decode (b0 # bs) =
     (if b0 < 0x80 then cons_ok b0 (utf8_decode bs)
      else if 0xC2 \<le> b0 \<and> b0 \<le> 0xDF then
        (case bs of
           b1 # r \<Rightarrow>
             if is_continuation b1
             then cons_ok ((b0 - 0xC0) * 64 + (b1 - 0x80)) (utf8_decode r)
             else Inl UnicodeDecodeError
         | _ \<Rightarrow> Inl UnicodeDecodeError)
      else if 0xE0 \<le> b0 \<and> b0 \<le> 0xEF then
        (case bs of
           b1 # b2 # r \<Rightarrow>
             (let c = (b0 - 0xE0) * 4096 + (b1 - 0x80) * 64 + (b2 - 0x80) in
              if is_continuation b1 \<and> is_continuation b2 \<and> 0x800 \<le> c
                 \<and> \<not> (0xD800 \<le> c \<and> c \<le> 0xDFFF)
              then cons_ok c (utf8_decode r)
              else Inl UnicodeDecodeError)
         | _ \<Rightarrow> Inl UnicodeDecodeError)
      else if 0xF0 \<le> b0 \<and> b0 \<le> 0xF4 then
        (case bs of
           b1 # b2 # b3 # r \<Rightarrow>
             (let c = (b0 - 0xF0) * 262144 + (b1 - 0x80) * 4096 + (b2 - 0x80) * 64
                      + (b3 - 0x80) in
              if is_continuation b1 \<and> is_continuation b2 \<and> is_continuation b3
                 \<and> 0x10000 \<le> c \<and> c < 0x110000
              then cons_ok c (utf8_decode r)
              else Inl UnicodeDecodeError)
         | _ \<Rightarrow> Inl UnicodeDecodeError)
      else Inl UnicodeDecodeError)"

section \<open>ICS text utilities\<close>

subsection \<open>\<open>ics_fold_line\<close>\<close>

text \<open>
  The inner loop of \<open>ics_fold_line\<close>:
  \<^verbatim>\<open>while split_at > 0 and (encoded[split_at] & 0xC0) == 0x80: split_at -= 1\<close>.
  It is entered with \<open>split_at = 75\<close> and \<open>len(encoded) > 75\<close>, so every read is in range.
\<close>

fun find_split :: "bytes \<Rightarrow> nat \<Rightarrow> nat" where
  "find_split encoded 0 = 0"
| "find_split encoded (Suc n) =
     (if is_continuation (encoded ! Suc n) then find_split encoded n else Suc n)"

text \<open>
  The outer loop, \<^verbatim>\<open>while len(encoded) > 75\<close>, with the list \<open>result\<close> it appends to. A
  split point of 0 leaves \<open>encoded\<close> as it is and the loop runs forever: the value \<open>None\<close>.
  \<open>decode\<close> can raise, which ends the loop with the exception.
\<close>

partial_function (option) fold_loop ::
  "bytes \<Rightarrow> pystr list \<Rightarrow> (error + bytes \<times> pystr list) option" where
  "fold_loop encoded result =
     (if 75 < length encoded then
        (let split_at = find_split encoded 75 in
         case utf8_decode (take split_at encoded) of
           Inl e \<Rightarrow> Some (Inl e)
         | Inr chunk \<Rightarrow> fold_loop (drop split_at encoded) (result @ [chunk]))
      else Some (Inr (encoded, result)))"

declare fold_loop.simps [code]

definition ics_fold_line :: "pystr \<Rightarrow> (error + pystr) option" where
  "ics_fold_line line =
     (case utf8_encode line of
        Inl e \<Rightarrow> Some (Inl e)
      | Inr encoded \<Rightarrow>
          if length encoded \<le> 75 then Some (Inr line)
          else
            (case fold_loop encoded [] of
               None \<Rightarrow> None
             | Some (Inl e) \<Rightarrow> Some (Inl e)
             | Some (Inr (rest, result)) \<Rightarrow>
                 (case utf8_decode rest of
                    Inl e \<Rightarrow> Some (Inl e)
                  | Inr last_chunk \<Rightarrow>
                      Some (Inr (join [13, 10, 32] (result @ [last_chunk]))))))"


text \<open>
  The buffers the outer loop of \<open>ics_fold_line\<close> goes through: \<open>fold_reach enc buf\<close> when the
  loop, started on \<open>enc\<close>, holds \<open>buf\<close> in \<open>encoded\<close> at the head of an iteration.
\<close>

inductive fold_reach :: "bytes \<Rightarrow> bytes \<Rightarrow> bool" for enc :: bytes where
  start: "fold_reach enc enc"
| step: "fold_reach enc buf \<Longrightarrow> 75 < length buf
         \<Longrightarrow> fold_reach enc (drop (find_split buf 75) buf)"

subsection \<open>\<open>ics_escape\<close>\<close>

text \<open>
  \<open>s.replace(old, new)\<close>: every occurrence of \<open>old\<close>, found from the left and not
  overlapping, becomes \<open>new\<close>; an empty \<open>old\<close> matches before every character and at the end.
\<close>

function replace :: "'a list \<Rightarrow> 'a list \<Rightarrow> 'a list \<Rightarrow> 'a list" where
  "replace old new s =
     (if old = [] then new @ concat (map (\<lambda>c. c # new) s)
      else if s = [] then []
      else if take (length old) s = old then new @ replace old new (drop (length old) s)
      else hd s # replace old new (tl s))"
  by pat_completeness auto
termination
  by (relation "measure (\<lambda>(old, new, s). length s)") auto

declare replace.simps [simp del]

text \<open>The four replacements of \<open>ics_escape\<close>, in the order of the source.\<close>

definition ics_escape :: "pystr \<Rightarrow> pystr" where
  "ics_escape text =
     (let text = replace [92] [92, 92] text;
          text = replace [59] [92, 59] text;
          text = replace [44] [92, 44] text;
          text = replace [10] [92, 110] text
      in text)"

text \<open>
  The escaping of one character as the specification words it: backslash, semicolon and comma
  get a backslash in front, a newline becomes backslash-n, anything else stays.
\<close>

definition escape_char_spec :: "nat \<Rightarrow> pystr" where
  "escape_char_spec c =
     (if c = 92 then [92, 92]
      else if c = 59 then [92, 59]
      else if c = 44 then [92, 44]
      else if c = 10 then [92, 110]
      else [c])"

subsection \<open>Notions the statements about folding use\<close>

text \<open>\<open>has_sub m s\<close>: the string \<open>m\<close> occurs in \<open>s\<close> (\<open>m in s\<close>).\<close>

fun has_sub :: "'a list \<Rightarrow> 'a list \<Rightarrow> bool" where
  "has_sub m [] = (m = [])"
| "has_sub m (x # xs) = (take (length m) (x # xs) = m \<or> has_sub m xs)"

text \<open>
  The byte offsets at which the code points of a string start in its encoding, counted from
  \<open>off\<close>, and the offset of its end: the code-point boundaries.
\<close>

fun boundaries :: "pystr \<Rightarrow> nat \<Rightarrow> nat list" where
  "boundaries [] off = [off]"
| "boundaries (c # cs) off =
     off # boundaries cs (off + (case utf8_char c of Inl e \<Rightarrow> 0 | Inr bs \<Rightarrow> length bs))"

text \<open>The physical lines of a text: what stands between the CRLF line breaks.\<close>

fun cons_line :: "'a \<Rightarrow> 'a list list \<Rightarrow> 'a list list" where
  "cons_line c [] = [[c]]"
| "cons_line c (l # ls) = (c # l) # ls"

fun physical_lines :: "pystr \<Rightarrow> pystr list" where
  "physical_lines [] = [[]]"
| "physical_lines (c # cs) =
     (case cs of
        [] \<Rightarrow> [[c]]
      | d # ds \<Rightarrow>
          if c = 13 \<and> d = 10 then [] # physical_lines ds
          else cons_line c (physical_lines cs))"

section \<open>SHA-256, as \<open>hashlib.sha256\<close> computes it\<close>

type_synonym u32 = "32 word"

definition rotr :: "nat \<Rightarrow> u32 \<Rightarrow> u32" where
  "rotr n x = word_rotr n x"

definition shr :: "nat \<Rightarrow> u32 \<Rightarrow> u32" where
  "shr n x = drop_bit n x"

definition Ch :: "u32 \<Rightarrow> u32 \<Rightarrow> u32 \<Rightarrow> u32" where
  "Ch x y z = (x AND y) XOR (NOT x AND z)"

definition Maj :: "u32 \<Rightarrow> u32 \<Rightarrow> u32 \<Rightarrow> u32" where
  "Maj x y z = (x AND y) XOR (x AND z) XOR (y AND z)"

definition Sigma0 :: "u32 \<Rightarrow> u32" where
  "Sigma0 x = rotr 2 x XOR rotr 13 x XOR rotr 22 x"

definition Sigma1 :: "u32 \<Rightarrow> u32" where
  "Sigma1 x = rotr 6 x XOR rotr 11 x XOR rotr 25 x"

definition sigma0 :: "u32 \<Rightarrow> u32" where
  "sigma0 x = rotr 7 x XOR rotr 18 x XOR shr 3 x"

definition sigma1 :: "u32 \<Rightarrow> u32" where
  "sigma1 x = rotr 17 x XOR rotr 19 x XOR shr 10 x"

text \<open>The round constants and the initial hash value of the standard.\<close>

definition K256 :: "u32 list" where
  "K256 =
    [1116352408, 1899447441, 3049323471, 3921009573, 961987163, 1508970993,
     2453635748, 2870763221, 3624381080, 310598401, 607225278, 1426881987,
     1925078388, 2162078206, 2614888103, 3248222580, 3835390401, 4022224774,
     264347078, 604807628, 770255983, 1249150122, 1555081692, 1996064986,
     2554220882, 2821834349, 2952996808, 3210313671, 3336571891, 3584528711,
     113926993, 338241895, 666307205, 773529912, 1294757372, 1396182291,
     1695183700, 1986661051, 2177026350, 2456956037, 2730485921, 2820302411,
     3259730800, 3345764771, 3516065817, 3600352804, 4094571909, 275423344,
     430227734, 506948616, 659060556, 883997877, 958139571, 1322822218,
     1537002063, 1747873779, 1955562222, 2024104815, 2227730452, 2361852424,
     2428436474, 2756734187, 3204031479, 3329325298]"

definition H256 :: "u32 list" where
  "H256 =
    [1779033703, 3144134277, 1013904242, 2773480762,
     1359893119, 2600822924, 528734635, 1541459225]"

text \<open>The big-endian bytes of a number, \<open>n\<close> of them.\<close>

fun be_bytes :: "nat \<Rightarrow> nat \<Rightarrow> nat list" where
  "be_bytes 0 v = []"
| "be_bytes (Suc n) v = be_bytes n (v div 256) @ [v mod 256]"

definition sha_pad :: "nat list \<Rightarrow> nat list" where
  "sha_pad msg =
     msg @ [0x80] @ replicate ((119 - length msg mod 64) mod 64) 0
       @ be_bytes 8 (8 * length msg)"

fun be_words :: "nat list \<Rightarrow> u32 list" where
  "be_words (a # b # c # d # r) =
     (((of_nat a * 256 + of_nat b) * 256 + of_nat c) * 256 + of_nat d) # be_words r"
| "be_words _ = []"

fun sha_blocks :: "u32 list \<Rightarrow> u32 list list" where
  "sha_blocks ws = (if length ws < 16 then [] else take 16 ws # sha_blocks (drop 16 ws))"

fun sha_extend :: "nat \<Rightarrow> u32 list \<Rightarrow> u32 list" where
  "sha_extend 0 w = w"
| "sha_extend (Suc n) w =
     (let t = length w in
      sha_extend n (w @ [sigma1 (w ! (t - 2)) + w ! (t - 7) + sigma0 (w ! (t - 15)) + w ! (t - 16)]))"

fun sha_round :: "u32 list \<Rightarrow> u32 \<times> u32 \<Rightarrow> u32 list" where
  "sha_round [a, b, c, d, e, f, g, h] (k, w) =
     (let t1 = h + Sigma1 e + Ch e f g + k + w;
          t2 = Sigma0 a + Maj a b c
      in [t1 + t2, a, b, c, d + t1, e, f, g])"
| "sha_round s _ = s"

definition sha_compress :: "u32 list \<Rightarrow> u32 list \<Rightarrow> u32 list" where
  "sha_compress h block = map2 (+) h (foldl sha_round h (zip K256 (sha_extend 48 block)))"

definition sha256 :: "nat list \<Rightarrow> u32 list" where
  "sha256 msg = foldl sha_compress H256 (sha_blocks (be_words (sha_pad msg)))"

definition hex_digit :: "nat \<Rightarrow> nat" where
  "hex_digit d = (if d < 10 then 48 + d else 87 + d)"

definition hex_byte :: "nat \<Rightarrow> nat list" where
  "hex_byte b = [hex_digit (b div 16), hex_digit (b mod 16)]"

definition word_bytes :: "u32 \<Rightarrow> nat list" where
  "word_bytes w = map (\<lambda>i. unat (drop_bit i w AND 0xFF)) [24, 16, 8, 0]"

definition sha256_hexdigest :: "nat list \<Rightarrow> nat list" where
  "sha256_hexdigest msg = concat (map hex_byte (concat (map word_bytes (sha256 msg))))"

section \<open>The event record and the loader\<close>

text \<open>The values a YAML document can hold, as far as the program tells them apart.\<close>

datatype yaml =
    YNull
  | YBool bool
  | YInt int
  | YStr pystr
  | YList "yaml list"
  | YDict "(yaml \<times> yaml) list"

text \<open>The dataclass \<open>CalendarEvent\<close>, with the types its annotations declare.\<close>

record CalendarEvent =
  month :: int
  day :: int
  name :: pystr
  message :: pystr
  explanation :: pystr
  explanation_short :: "pystr option"
  characters :: "yaml list"
  citations :: "yaml list"

text \<open>
  A definition block, the dict \<open>doc\<close> that \<open>parse_event\<close> receives: for each key the
  function reads, the value under it, or \<open>None\<close> when the block has no such key. The five
  required values and \<open>explanation_short\<close> have the types the dataclass declares
  (\<open>parse_event\<close> stores them unchecked, so a block with another type there is outside this
  model); \<open>doc.get("explanation_short")\<close> is \<open>None\<close> for a missing key and for a null alike.
  \<open>characters\<close> and \<open>citations\<close> are any YAML value: the function tests them itself.
\<close>

record doc =
  doc_month :: "int option"
  doc_day :: "int option"
  doc_name :: "pystr option"
  doc_message :: "pystr option"
  doc_explanation :: "pystr option"
  doc_explanation_short :: "pystr option"
  doc_characters :: "yaml option"
  doc_citations :: "yaml option"

text \<open>
  \<^verbatim>\<open>raw = doc.get(key); if not isinstance(raw, list): raw = []\<close>
\<close>

definition list_or_empty :: "yaml option \<Rightarrow> yaml list" where
  "list_or_empty raw = (case raw of Some (YList xs) \<Rightarrow> xs | _ \<Rightarrow> [])"

text \<open>\<open>doc[key]\<close>: \<open>KeyError(key)\<close> when the key is missing.\<close>

definition getitem :: "'a option \<Rightarrow> string \<Rightarrow> error + 'a" where
  "getitem entry key = (case entry of None \<Rightarrow> Inl (KeyError (str key)) | Some v \<Rightarrow> Inr v)"

definition parse_event :: "doc \<Rightarrow> error + CalendarEvent" where
  "parse_event d =
     (let raw_citations = list_or_empty (doc_citations d);
          raw_characters = list_or_empty (doc_characters d)
      in case getitem (doc_month d) ''month'' of Inl e \<Rightarrow> Inl e | Inr m \<Rightarrow>
         (case getitem (doc_day d) ''day'' of Inl e \<Rightarrow> Inl e | Inr dy \<Rightarrow>
         (case getitem (doc_name d) ''name'' of Inl e \<Rightarrow> Inl e | Inr n \<Rightarrow>
         (case getitem (doc_message d) ''message'' of Inl e \<Rightarrow> Inl e | Inr msg \<Rightarrow>
         (case getitem (doc_explanation d) ''explanation'' of Inl e \<Rightarrow> Inl e | Inr ex \<Rightarrow>
            Inr \<lparr>month = m, day = dy, name = n, message = msg, explanation = ex,
                 explanation_short = doc_explanation_short d,
                 characters = raw_characters, citations = raw_citations\<rparr>)))))"

text \<open>
  The month sources: \<open>fs m\<close> is what \<open>yaml.safe_load_all\<close> yields for \<open>m.yaml\<close>, a list of
  documents (\<open>None\<close> for an empty one), or \<open>None\<close> when the file does not exist.
\<close>

type_synonym sources = "nat \<Rightarrow> doc option list option"

text \<open>The inner loop of \<open>load_events\<close>, over the documents of one file.\<close>

fun parse_docs :: "doc option list \<Rightarrow> CalendarEvent list \<Rightarrow> error + CalendarEvent list" where
  "parse_docs [] events = Inr events"
| "parse_docs (None # ds) events = parse_docs ds events"
| "parse_docs (Some d # ds) events =
     (case parse_event d of
        Inl e \<Rightarrow> Inl e
      | Inr ev \<Rightarrow> parse_docs ds (events @ [ev]))"

text \<open>The outer loop, over the month numbers.\<close>

fun load_months :: "sources \<Rightarrow> nat list \<Rightarrow> CalendarEvent list \<Rightarrow> error + CalendarEvent list" where
  "load_months fs [] events = Inr events"
| "load_months fs (m # ms) events =
     (case fs m of
        None \<Rightarrow> Inl (FileNotFoundError m)
      | Some docs \<Rightarrow>
          (case parse_docs docs events of
             Inl e \<Rightarrow> Inl e
           | Inr events' \<Rightarrow> load_months fs ms events'))"

text \<open>
  The sort key \<open>(e.month, e.day, e.name)\<close>. Python compares tuples and strings
  lexicographically, which is the order of pairs and lists here; \<open>list.sort\<close> is stable, as
  \<open>sort_key\<close> is.
\<close>

definition event_key :: "CalendarEvent \<Rightarrow> int \<times> int \<times> pystr" where
  "event_key e = (month e, day e, name e)"

definition load_events :: "sources \<Rightarrow> error + CalendarEvent list" where
  "load_events fs =
     (case load_months fs [1..<13] [] of
        Inl e \<Rightarrow> Inl e
      | Inr events \<Rightarrow> Inr (sort_key event_key events))"

section \<open>UID, VEVENT and calendar\<close>

text \<open>\<open>str.isspace\<close> of one character, and \<open>str.strip()\<close>.\<close>

definition is_space :: "nat \<Rightarrow> bool" where
  "is_space c =
     ((0x09 \<le> c \<and> c \<le> 0x0D) \<or> (0x1C \<le> c \<and> c \<le> 0x20) \<or> c = 0x85 \<or> c = 0xA0
      \<or> c = 0x1680 \<or> (0x2000 \<le> c \<and> c \<le> 0x200A) \<or> c = 0x2028 \<or> c = 0x2029
      \<or> c = 0x202F \<or> c = 0x205F \<or> c = 0x3000)"

definition strip :: "pystr \<Rightarrow> pystr" where
  "strip s = rev (dropWhile is_space (rev (dropWhile is_space s)))"

text \<open>The decimal digits of a number, and the format \<open>02d\<close> of an integer.\<close>

function dec :: "nat \<Rightarrow> pystr" where
  "dec n = (if n < 10 then [48 + n] else dec (n div 10) @ [48 + n mod 10])"
  by pat_completeness auto
termination
  by (relation "measure id") auto

declare dec.simps [simp del]

definition format_02d :: "int \<Rightarrow> pystr" where
  "format_02d x =
     (if x < 0 then 45 # dec (nat (- x))
      else if x < 10 then 48 # dec (nat x)
      else dec (nat x))"

text \<open>
  \<^verbatim>\<open>unique_string = f"{event.month:02d}-{event.day:02d}-{event.name}"\<close> and the first 16
  characters of the hexadecimal SHA-256 digest of its encoding.
\<close>

definition unique_string :: "CalendarEvent \<Rightarrow> pystr" where
  "unique_string event = format_02d (month event) @ str ''-'' @ format_02d (day event)
     @ str ''-'' @ name event"

definition generate_uid :: "CalendarEvent \<Rightarrow> error + pystr" where
  "generate_uid event =
     (case utf8_encode (unique_string event) of
        Inl e \<Rightarrow> Inl e
      | Inr encoded \<Rightarrow>
          (let hash_hex = take 16 (sha256_hexdigest encoded)
           in Inr (hash_hex @ str ''@touhou-calendar'')))"

text \<open>
  \<open>datetime.date(year, month, day)\<close> raises \<open>ValueError\<close> unless the three form a date;
  \<open>strftime("%Y%m%d")\<close> of a date.
\<close>

definition REFERENCE_YEAR :: int where
  "REFERENCE_YEAR = 2024"

definition is_leap :: "int \<Rightarrow> bool" where
  "is_leap y = (y mod 4 = 0 \<and> (y mod 100 \<noteq> 0 \<or> y mod 400 = 0))"

definition days_in_month :: "int \<Rightarrow> int \<Rightarrow> int" where
  "days_in_month y m =
     (if m = 2 then (if is_leap y then 29 else 28)
      else if m = 4 \<or> m = 6 \<or> m = 9 \<or> m = 11 then 30
      else 31)"

definition date :: "int \<Rightarrow> int \<Rightarrow> int \<Rightarrow> error + int \<times> int \<times> int" where
  "date y m d =
     (if 1 \<le> y \<and> y \<le> 9999 \<and> 1 \<le> m \<and> m \<le> 12 \<and> 1 \<le> d \<and> d \<le> days_in_month y m
      then Inr (y, m, d) else Inl ValueError)"

text \<open>For a year of four digits, as \<open>REFERENCE_YEAR\<close> is, \<open>%Y\<close> is its decimal form.\<close>

definition strftime_Ymd :: "int \<times> int \<times> int \<Rightarrow> pystr" where
  "strftime_Ymd dt = (case dt of (y, m, d) \<Rightarrow> dec (nat y) @ format_02d m @ format_02d d)"

text \<open>
  \<open>', '.join(event.characters)\<close>: \<open>TypeError\<close> when an item is not a string.
\<close>

fun join_items :: "pystr \<Rightarrow> yaml list \<Rightarrow> error + pystr" where
  "join_items sep [] = Inr []"
| "join_items sep (YStr s # rest) =
     (case join_items sep rest of
        Inl e \<Rightarrow> Inl e
      | Inr r \<Rightarrow> Inr (if rest = [] then s else s @ sep @ r))"
| "join_items sep (_ # rest) = Inl TypeError"

text \<open>
  The description of \<open>build_vevent\<close>. \<open>event.explanation_short or event.explanation\<close> is the
  short explanation unless it is \<open>None\<close> or the empty string.
\<close>

definition vevent_description :: "CalendarEvent \<Rightarrow> error + pystr" where
  "vevent_description event =
     (let description_parts = [message event];
          explanation_text =
            (case explanation_short event of
               None \<Rightarrow> explanation event
             | Some s \<Rightarrow> if s = [] then explanation event else s);
          description_parts = description_parts @ [strip explanation_text]
      in case (if characters event \<noteq> []
               then (case join_items (str '', '') (characters event) of
                       Inl e \<Rightarrow> Inl e
                     | Inr joined \<Rightarrow> Inr (description_parts @ [str ''Characters: '' @ joined]))
               else Inr description_parts) of
           Inl e \<Rightarrow> Inl e
         | Inr parts \<Rightarrow>
             Inr (join [92, 110, 92, 110] (map (\<lambda>part. ics_escape (strip part)) parts)))"

text \<open>\<open>ics_fold_line(line) for line in lines\<close>: the first failure ends it.\<close>

fun fold_lines :: "pystr list \<Rightarrow> (error + pystr list) option" where
  "fold_lines [] = Some (Inr [])"
| "fold_lines (line # rest) =
     (case ics_fold_line line of
        None \<Rightarrow> None
      | Some (Inl e) \<Rightarrow> Some (Inl e)
      | Some (Inr folded) \<Rightarrow>
          (case fold_lines rest of
             None \<Rightarrow> None
           | Some (Inl e) \<Rightarrow> Some (Inl e)
           | Some (Inr fs) \<Rightarrow> Some (Inr (folded # fs))))"

definition build_vevent :: "CalendarEvent \<Rightarrow> (error + pystr) option" where
  "build_vevent event =
     (case date REFERENCE_YEAR (month event) (day event) of
        Inl e \<Rightarrow> Some (Inl e)
      | Inr dt \<Rightarrow>
     (let dtstart = strftime_Ymd dt in
      case vevent_description event of
        Inl e \<Rightarrow> Some (Inl e)
      | Inr description \<Rightarrow>
     (let summary = ics_escape (name event) in
      case generate_uid event of
        Inl e \<Rightarrow> Some (Inl e)
      | Inr uid \<Rightarrow>
     (let lines =
            [str ''BEGIN:VEVENT'',
             str ''UID:'' @ uid,
             str ''DTSTART;VALUE=DATE:'' @ dtstart,
             str ''SUMMARY:'' @ summary,
             str ''DESCRIPTION:'' @ description,
             str ''RRULE:FREQ=YEARLY'',
             str ''TRANSP:TRANSPARENT'',
             str ''END:VEVENT'']
      in case fold_lines lines of
           None \<Rightarrow> None
         | Some (Inl e) \<Rightarrow> Some (Inl e)
         | Some (Inr folded) \<Rightarrow> Some (Inr (join [13, 10] folded))))))"

text \<open>\<open>build_vevent(e) for e in events\<close>.\<close>

fun build_vevents :: "CalendarEvent list \<Rightarrow> (error + pystr list) option" where
  "build_vevents [] = Some (Inr [])"
| "build_vevents (e # es) =
     (case build_vevent e of
        None \<Rightarrow> None
      | Some (Inl err) \<Rightarrow> Some (Inl err)
      | Some (Inr v) \<Rightarrow>
          (case build_vevents es of
             None \<Rightarrow> None
           | Some (Inl err) \<Rightarrow> Some (Inl err)
           | Some (Inr vs) \<Rightarrow> Some (Inr (v # vs))))"

definition build_ics :: "CalendarEvent list \<Rightarrow> (error + pystr) option" where
  "build_ics events =
     (let header = join [13, 10]
            [str ''BEGIN:VCALENDAR'',
             str ''VERSION:2.0'',
             str ''PRODID:-//Touhou Calendar//Touhou Calendar//EN'',
             str ''CALSCALE:GREGORIAN'',
             str ''METHOD:PUBLISH'',
             str ''X-WR-CALNAME:Touhou Calendar'']
      in case build_vevents events of
           None \<Rightarrow> None
         | Some (Inl e) \<Rightarrow> Some (Inl e)
         | Some (Inr vs) \<Rightarrow>
             (let vevents = join [13, 10] vs;
                  footer = str ''END:VCALENDAR''
              in Some (Inr (header @ [13, 10] @ vevents @ [13, 10] @ footer @ [13, 10]))))"

section \<open>The runner\<close>

text \<open>
  What \<open>main\<close> reads and writes: the month sources, the output file (\<open>None\<close> until it is
  written) and the text printed so far.
\<close>

record world =
  files :: sources
  output_file :: "bytes option"
  stdout :: pystr

definition print_event_summary :: "CalendarEvent list \<Rightarrow> pystr" where
  "print_event_summary events =
     str ''Parsed '' @ dec (length events) @ str '' events:'' @ [10, 10]
     @ concat (map (\<lambda>event. str ''  '' @ format_02d (month event) @ str ''/''
                      @ format_02d (day event) @ str '' - '' @ name event @ [10]) events)
     @ [10]"

text \<open>
  \<open>main\<close>: the exception that ended the run, if any, and the world it leaves.
  \<open>write_text\<close> opens the file, which empties it, before it encodes the text.
\<close>

definition main :: "world \<Rightarrow> (error option \<times> world) option" where
  "main w =
     (case load_events (files w) of
        Inl e \<Rightarrow> Some (Some e, w)
      | Inr events \<Rightarrow>
     (let w1 = w\<lparr>stdout := stdout w @ print_event_summary events\<rparr> in
      case build_ics events of
        None \<Rightarrow> None
      | Some (Inl e) \<Rightarrow> Some (Some e, w1)
      | Some (Inr ics_content) \<Rightarrow>
          (case utf8_encode ics_content of
             Inl e \<Rightarrow> Some (Some e, w1\<lparr>output_file := Some []\<rparr>)
           | Inr data \<Rightarrow>
               Some (None, w1\<lparr>output_file := Some data,
                            stdout := stdout w1 @ str ''Written touhou_calendar.ics with ''
                              @ dec (length events) @ str '' events.'' @ [10]\<rparr>))))"

text \<open>The keys a block must have, and whether a block has a key.\<close>

definition required_keys :: "string list" where
  "required_keys = [''month'', ''day'', ''name'', ''message'', ''explanation'']"

definition has_key :: "doc \<Rightarrow> string \<Rightarrow> bool" where
  "has_key d k =
     (if k = ''month'' then doc_month d \<noteq> None
      else if k = ''day'' then doc_day d \<noteq> None
      else if k = ''name'' then doc_name d \<noteq> None
      else if k = ''message'' then doc_message d \<noteq> None
      else if k = ''explanation'' then doc_explanation d \<noteq> None
      else if k = ''explanation_short'' then doc_explanation_short d \<noteq> None
      else if k = ''characters'' then doc_characters d \<noteq> None
      else if k = ''citations'' then doc_citations d \<noteq> None
      else False)"

section \<open>Example inputs\<close>

text \<open>A block with no \<open>message\<close>, and sources that hold it in month \<open>k\<close> only.\<close>

definition block_without_message :: doc where
  "block_without_message =
     \<lparr>doc_month = Some 1, doc_day = Some 5, doc_name = Some (str ''A''), doc_message = None,
      doc_explanation = Some (str ''E''), doc_explanation_short = None,
      doc_characters = None, doc_citations = None\<rparr>"

definition sources_with_bad_block :: "nat \<Rightarrow> sources" where
  "sources_with_bad_block k =
     (\<lambda>m. if m = k then Some [Some block_without_message] else Some [])"

text \<open>A block with neither \<open>day\<close> nor \<open>message\<close>.\<close>

definition block_without_day_and_message :: doc where
  "block_without_day_and_message =
     \<lparr>doc_month = Some 1, doc_day = None, doc_name = Some (str ''A''), doc_message = None,
      doc_explanation = Some (str ''E''), doc_explanation_short = None,
      doc_characters = None, doc_citations = None\<rparr>"

text \<open>Three well-formed blocks, the events they parse to, and sources that hold them.\<close>

definition example_block :: "int \<Rightarrow> int \<Rightarrow> string \<Rightarrow> doc" where
  "example_block m d n =
     \<lparr>doc_month = Some m, doc_day = Some d, doc_name = Some (str n),
      doc_message = Some (str ''M''), doc_explanation = Some (str ''E''),
      doc_explanation_short = None, doc_characters = None, doc_citations = None\<rparr>"

definition example_event :: "int \<Rightarrow> int \<Rightarrow> string \<Rightarrow> CalendarEvent" where
  "example_event m d n =
     \<lparr>month = m, day = d, name = str n, message = str ''M'', explanation = str ''E'',
      explanation_short = None, characters = [], citations = []\<rparr>"

definition example_sources :: sources where
  "example_sources =
     (\<lambda>m. if m = 1 then Some [Some (example_block 3 1 ''B''), None, Some (example_block 1 5 ''Z'')]
          else if m = 7 then Some [Some (example_block 1 5 ''A'')]
          else Some [])"

text \<open>A hexadecimal digit as \<open>hexdigest\<close> writes it, and the event of 29 February.\<close>

definition is_hex :: "nat \<Rightarrow> bool" where
  "is_hex c = ((48 \<le> c \<and> c \<le> 57) \<or> (97 \<le> c \<and> c \<le> 102))"

definition miyako_day :: CalendarEvent where
  "miyako_day =
     \<lparr>month = 2, day = 29, name = str ''Miyako Day'', message = str ''M'',
      explanation = str ''E'', explanation_short = None, characters = [], citations = []\<rparr>"

section \<open>UTF-8: shape of an encoding and the round trip\<close>

lemma and_192: "(b::nat) AND 192 = 64 * ((b div 64) mod 4)"
proof -
  have "take_bit 6 (192::nat) = 0"
    by (simp add: take_bit_eq_mod)
  then have lo: "take_bit 6 (b AND 192) = 0"
    by (simp only: take_bit_and and.right_neutral) simp
  have "drop_bit 6 (192::nat) = mask 2"
    by (simp add: drop_bit_eq_div mask_eq_exp_minus_1)
  then have hi: "drop_bit 6 (b AND 192) = take_bit 2 (drop_bit 6 b)"
    by (simp add: drop_bit_and take_bit_eq_mask)
  have "b AND 192 = push_bit 6 (drop_bit 6 (b AND 192)) + take_bit 6 (b AND 192)"
    by (simp only: bits_ident)
  also have "\<dots> = 64 * ((b div 64) mod 4)"
    by (simp only: lo hi) (simp add: push_bit_eq_mult drop_bit_eq_div take_bit_eq_mod)
  finally show ?thesis .
qed

lemma is_continuation_iff: "is_continuation b = (b div 64 mod 4 = 2)"
  by (simp add: is_continuation_def and_192)

lemma is_continuation_tail: "k < 64 \<Longrightarrow> is_continuation (128 + k)"
  by (simp add: is_continuation_iff)

lemma is_continuation_mod [simp]: "is_continuation (128 + k mod 64)"
  by (simp add: is_continuation_iff)

lemma not_continuation_lead:
  "b < 128 \<or> 192 \<le> b \<and> b < 256 \<Longrightarrow> \<not> is_continuation b"
  unfolding is_continuation_iff by (elim disjE conjE) simp_all

lemma utf8_char_cases:
  assumes "utf8_char c = Inr bs"
  obtains (one) "c < 0x80" "bs = [c]"
  | (two) "0x80 \<le> c" "c < 0x800" "bs = [0xC0 + c div 64, 0x80 + c mod 64]"
  | (three) "0x800 \<le> c" "c < 0x10000" "\<not> (0xD800 \<le> c \<and> c \<le> 0xDFFF)"
      "bs = [0xE0 + c div 4096, 0x80 + c div 64 mod 64, 0x80 + c mod 64]"
  | (four) "0x10000 \<le> c" "c < 0x110000"
      "bs = [0xF0 + c div 262144, 0x80 + c div 4096 mod 64, 0x80 + c div 64 mod 64,
             0x80 + c mod 64]"
  using assms unfolding utf8_char_def by (auto split: if_splits)

lemma utf8_char_shape:
  assumes "utf8_char c = Inr bs"
  shows "\<exists>b tl. bs = b # tl \<and> \<not> is_continuation b \<and> (\<forall>x\<in>set tl. is_continuation x)
          \<and> length tl \<le> 3"
  using assms
proof (cases rule: utf8_char_cases)
  case one
  then show ?thesis by (simp add: not_continuation_lead)
next
  case two
  then have "\<not> is_continuation (0xC0 + c div 64)"
    by (intro not_continuation_lead) simp
  with two show ?thesis by simp
next
  case three
  then have "\<not> is_continuation (0xE0 + c div 4096)"
    by (intro not_continuation_lead) simp
  with three show ?thesis by simp
next
  case four
  then have "\<not> is_continuation (0xF0 + c div 262144)"
    by (intro not_continuation_lead) simp
  with four show ?thesis by simp
qed

lemma utf8_decode_two:
  assumes "2 \<le> x" "x \<le> 31" "y < 64"
  shows "utf8_decode ((0xC0 + x) # (0x80 + y) # r) = cons_ok (x * 64 + y) (utf8_decode r)"
  using assms by (simp add: is_continuation_tail)

lemma utf8_decode_three:
  assumes "x \<le> 15" "y < 64" "z < 64" "0x800 \<le> x * 4096 + y * 64 + z"
    "\<not> (0xD800 \<le> x * 4096 + y * 64 + z \<and> x * 4096 + y * 64 + z \<le> 0xDFFF)"
  shows "utf8_decode ((0xE0 + x) # (0x80 + y) # (0x80 + z) # r)
         = cons_ok (x * 4096 + y * 64 + z) (utf8_decode r)"
  using assms by (simp add: is_continuation_tail Let_def)

lemma utf8_decode_four:
  assumes "x \<le> 4" "y < 64" "z < 64" "w < 64" "0x10000 \<le> x * 262144 + y * 4096 + z * 64 + w"
    "x * 262144 + y * 4096 + z * 64 + w < 0x110000"
  shows "utf8_decode ((0xF0 + x) # (0x80 + y) # (0x80 + z) # (0x80 + w) # r)
         = cons_ok (x * 262144 + y * 4096 + z * 64 + w) (utf8_decode r)"
  using assms by (simp add: is_continuation_tail Let_def)

lemma split3: "c div 4096 * 4096 + c div 64 mod 64 * 64 + c mod 64 = (c::nat)"
proof -
  define q where "q = c div 64"
  have a: "c div 4096 = q div 64"
    by (simp add: q_def div_mult2_eq)
  have "c = q * 64 + c mod 64"
    by (simp add: q_def)
  moreover have "q = q div 64 * 64 + q mod 64"
    by simp
  ultimately have "q div 64 * 4096 + q mod 64 * 64 + c mod 64 = c"
    by linarith
  then show ?thesis
    by (simp add: a q_def)
qed
lemma split4:
  "c div 262144 * 262144 + c div 4096 mod 64 * 4096 + c div 64 mod 64 * 64 + c mod 64 = (c::nat)"
proof -
  define q where "q = c div 4096"
  have a: "c div 262144 = q div 64"
    by (simp add: q_def div_mult2_eq)
  have "q = q div 64 * 64 + q mod 64"
    by simp
  then have "q * 4096 = q div 64 * 262144 + q mod 64 * 4096"
    by linarith
  with split3 [of c] show ?thesis
    by (simp add: a q_def)
qed

lemma utf8_decode_char:
  assumes "utf8_char c = Inr bs"
  shows "utf8_decode (bs @ r) = cons_ok c (utf8_decode r)"
  using assms
proof (cases rule: utf8_char_cases)
  case one
  then show ?thesis by simp
next
  case two
  then have "2 \<le> c div 64" "c div 64 \<le> 31" "c mod 64 < 64" by simp_all
  from utf8_decode_two [OF this] two show ?thesis by simp
next
  case three
  from three have "c div 4096 \<le> 15" "c div 64 mod 64 < 64" "c mod 64 < 64" by simp_all
  from utf8_decode_three [OF this] three show ?thesis by (simp add: split3)
next
  case four
  from four have "c div 262144 \<le> 4" "c div 4096 mod 64 < 64" "c div 64 mod 64 < 64"
    "c mod 64 < 64" by simp_all
  from utf8_decode_four [OF this] four show ?thesis by (simp add: split4)
qed

lemma utf8_encode_Cons:
  "utf8_encode (c # cs) = Inr b \<longleftrightarrow>
     (\<exists>bs r. utf8_char c = Inr bs \<and> utf8_encode cs = Inr r \<and> b = bs @ r)"
  by (auto split: sum.splits)

lemma utf8_decode_encode: "utf8_encode s = Inr b \<Longrightarrow> utf8_decode b = Inr s"
proof (induction s arbitrary: b)
  case Nil
  then show ?case by simp
next
  case (Cons c cs)
  from Cons.prems(1) obtain bs r where c: "utf8_char c = Inr bs"
    and r: "utf8_encode cs = Inr r" and b: "b = bs @ r"
    unfolding utf8_encode_Cons by blast
  from Cons.IH [OF r] show ?case
    by (simp add: b utf8_decode_char [OF c] cons_ok_def)
qed

lemma utf8_encode_append:
  "utf8_encode s1 = Inr b1 \<Longrightarrow> utf8_encode s2 = Inr b2 \<Longrightarrow> utf8_encode (s1 @ s2) = Inr (b1 @ b2)"
  by (induction s1 arbitrary: b1) (auto split: sum.splits)

text \<open>A cut of an encoding at a byte that is not a continuation byte cuts the string.\<close>

lemma utf8_cut:
  assumes "utf8_encode s = Inr b" "p \<le> length b" "p < length b \<longrightarrow> \<not> is_continuation (b ! p)"
  shows "\<exists>s1 s2. s = s1 @ s2 \<and> utf8_encode s1 = Inr (take p b) \<and> utf8_encode s2 = Inr (drop p b)"
  using assms
proof (induction s arbitrary: b p)
  case Nil
  then show ?case by simp
next
  case (Cons c cs)
  from Cons.prems(1) obtain bs r where c: "utf8_char c = Inr bs"
    and r: "utf8_encode cs = Inr r" and b: "b = bs @ r"
    unfolding utf8_encode_Cons by blast
  from utf8_char_shape [OF c] obtain l t where bs: "bs = l # t"
    and cont: "\<forall>x\<in>set t. is_continuation x"
    by blast
  show ?case
  proof (cases "p = 0")
    case True
    with Cons.prems show ?thesis
      by (intro exI [of _ "[]"] exI [of _ "c # cs"]) simp
  next
    case False
    have "length bs \<le> p"
    proof (rule ccontr)
      assume "\<not> length bs \<le> p"
      with False bs have "p - 1 < length t" and "b ! p = t ! (p - 1)"
        by (auto simp: b nth_append nth_Cons')
      with cont have "is_continuation (b ! p)"
        by simp
      moreover from \<open>\<not> length bs \<le> p\<close> have "p < length b"
        by (simp add: b)
      ultimately show False
        using Cons.prems(3) by simp
    qed
    then obtain q where p: "p = length bs + q"
      using le_Suc_ex by blast
    with Cons.prems have "q \<le> length r" "q < length r \<longrightarrow> \<not> is_continuation (r ! q)"
      by (auto simp: b nth_append)
    from Cons.IH [OF r this] obtain s1 s2 where "cs = s1 @ s2"
      "utf8_encode s1 = Inr (take q r)" "utf8_encode s2 = Inr (drop q r)"
      by blast
    then show ?thesis
      by (intro exI [of _ "c # s1"] exI [of _ s2]) (simp add: c b p)
  qed
qed

lemma find_split_le: "find_split b n \<le> n"
  by (induction n) auto

lemma find_split_not_continuation:
  "0 < find_split b n \<Longrightarrow> \<not> is_continuation (b ! find_split b n)"
  by (induction n) (auto split: if_splits)

lemma find_split_ge:
  "0 < j \<Longrightarrow> j \<le> n \<Longrightarrow> \<not> is_continuation (b ! j) \<Longrightarrow> j \<le> find_split b n"
proof (induction n)
  case 0
  then show ?case by simp
next
  case (Suc n)
  then show ?case by (cases "j = Suc n") auto
qed

lemma utf8_encode_lead:
  assumes "utf8_encode s = Inr b" "b \<noteq> []"
  shows "\<not> is_continuation (b ! 0)"
proof (cases s)
  case Nil
  with assms show ?thesis by simp
next
  case (Cons c cs)
  from assms(1) [unfolded Cons utf8_encode_Cons] obtain bs r
    where c: "utf8_char c = Inr bs" and b: "b = bs @ r"
    by blast
  from utf8_char_shape [OF c] show ?thesis
    by (auto simp: b)
qed

lemma utf8_lead_within_4:
  assumes "utf8_encode s = Inr b" "i + 3 < length b"
  shows "\<exists>j. i \<le> j \<and> j \<le> i + 3 \<and> \<not> is_continuation (b ! j)"
  using assms
proof (induction s arbitrary: b i)
  case Nil
  then show ?case by simp
next
  case (Cons c cs)
  from Cons.prems(1) obtain bs r where c: "utf8_char c = Inr bs"
    and r: "utf8_encode cs = Inr r" and b: "b = bs @ r"
    unfolding utf8_encode_Cons by blast
  from utf8_char_shape [OF c] obtain l t where bs: "bs = l # t"
    and lead: "\<not> is_continuation l" and len: "length t \<le> 3"
    by blast
  consider (first) "i = 0" | (inside) "0 < i" "i < length bs" | (later) "length bs \<le> i"
    by linarith
  then show ?case
  proof cases
    case first
    with lead show ?thesis
      by (intro exI [of _ 0]) (simp add: b bs)
  next
    case inside
    with Cons.prems(2) len have "length bs < length b" "i \<le> length bs" "length bs \<le> i + 3"
      and "0 < length r"
      by (auto simp: b bs)
    moreover from this have "r \<noteq> []"
      by simp
    with utf8_encode_lead [OF r] have "\<not> is_continuation (b ! length bs)"
      by (simp add: b nth_append)
    ultimately show ?thesis
      by blast
  next
    case later
    then obtain k where i: "i = length bs + k"
      using le_Suc_ex by blast
    with Cons.prems(2) have "k + 3 < length r"
      by (simp add: b)
    from Cons.IH [OF r this] obtain j where "k \<le> j" "j \<le> k + 3" "\<not> is_continuation (r ! j)"
      by blast
    then show ?thesis
      by (intro exI [of _ "length bs + j"]) (simp add: i b nth_append)
  qed
qed

lemma find_split_encoded:
  assumes "utf8_encode s = Inr b" "75 < length b"
  shows "72 \<le> find_split b 75" "find_split b 75 \<le> 75"
    "\<not> is_continuation (b ! find_split b 75)"
proof -
  from assms have "72 + 3 < length b" by simp
  from utf8_lead_within_4 [OF assms(1) this] obtain j
    where j: "72 \<le> j" "j \<le> 75" "\<not> is_continuation (b ! j)"
    by auto
  then have "j \<le> find_split b 75"
    by (intro find_split_ge) simp_all
  with j show "72 \<le> find_split b 75"
    by simp
  then show "\<not> is_continuation (b ! find_split b 75)"
    by (intro find_split_not_continuation) simp
  show "find_split b 75 \<le> 75"
    by (rule find_split_le)
qed

lemma fold_loop_correct:
  assumes "utf8_encode s = Inr b"
  shows "\<exists>chunks lst lb. fold_loop b acc = Some (Inr (lb, acc @ chunks))
           \<and> utf8_encode lst = Inr lb \<and> concat chunks @ lst = s \<and> length lb \<le> 75
           \<and> (b \<noteq> [] \<longrightarrow> lb \<noteq> [])
           \<and> (\<forall>c\<in>set chunks. \<exists>bc. utf8_encode c = Inr bc \<and> 72 \<le> length bc \<and> length bc \<le> 75)"
  using assms
proof (induction b arbitrary: s acc rule: length_induct)
  case (1 b)
  show ?case
  proof (cases "75 < length b")
    case False
    then have "fold_loop b acc = Some (Inr (b, acc @ []))"
      by (subst fold_loop.simps) simp
    with False "1.prems" show ?thesis
      by (intro exI [of _ "[]"] exI [of _ s] exI [of _ b]) simp
  next
    case True
    define p where "p = find_split b 75"
    from find_split_encoded [OF "1.prems" True]
    have p: "72 \<le> p" "p \<le> 75" "\<not> is_continuation (b ! p)"
      by (simp_all add: p_def)
    with True have "p \<le> length b" "p < length b \<longrightarrow> \<not> is_continuation (b ! p)"
      by simp_all
    from utf8_cut [OF "1.prems" this] obtain s1 s2 where s: "s = s1 @ s2"
      and s1: "utf8_encode s1 = Inr (take p b)" and s2: "utf8_encode s2 = Inr (drop p b)"
      by blast
    have step: "fold_loop b acc = fold_loop (drop p b) (acc @ [s1])"
      using True by (subst fold_loop.simps) (simp add: p_def [symmetric] utf8_decode_encode [OF s1])
    from p True have shorter: "length (drop p b) < length b" and ne: "drop p b \<noteq> []"
      by simp_all
    from "1.IH" [rule_format, OF shorter s2, of "acc @ [s1]"] ne
    obtain chunks lst lb where
      rec: "fold_loop (drop p b) (acc @ [s1]) = Some (Inr (lb, (acc @ [s1]) @ chunks))"
      and rest: "utf8_encode lst = Inr lb" "concat chunks @ lst = s2" "length lb \<le> 75"
        "lb \<noteq> []"
        "\<forall>c\<in>set chunks. \<exists>bc. utf8_encode c = Inr bc \<and> 72 \<le> length bc \<and> length bc \<le> 75"
      by blast
    from p True s1 have "\<exists>bc. utf8_encode s1 = Inr bc \<and> 72 \<le> length bc \<and> length bc \<le> 75"
      by simp
    with rec rest show ?thesis
      by (intro exI [of _ "s1 # chunks"] exI [of _ lst] exI [of _ lb]) (simp add: step s)
  qed
qed

section \<open>Folding: the loop state and termination\<close>

lemma fold_reach_encoded:
  assumes "utf8_encode s = Inr enc" "fold_reach enc buf"
  shows "\<exists>k s1 s2. s = s1 @ s2 \<and> utf8_encode s2 = Inr buf
           \<and> utf8_encode s1 = Inr (take k enc) \<and> buf = drop k enc \<and> k \<le> length enc"
  using assms(2)
proof (induction rule: fold_reach.induct)
  case start
  with assms(1) show ?case
    by (intro exI [of _ 0] exI [of _ "[]"] exI [of _ s]) simp
next
  case (step buf)
  then obtain k s1 s2 where s: "s = s1 @ s2" and s2: "utf8_encode s2 = Inr buf"
    and s1: "utf8_encode s1 = Inr (take k enc)"
    and buf: "buf = drop k enc" and k: "k \<le> length enc"
    by blast
  define p where "p = find_split buf 75"
  from find_split_encoded [OF s2 step.hyps(2)]
  have p: "72 \<le> p" "p \<le> 75" "\<not> is_continuation (buf ! p)"
    by (simp_all add: p_def)
  with step.hyps(2) have pl: "p \<le> length buf" "p < length buf \<longrightarrow> \<not> is_continuation (buf ! p)"
    by simp_all
  from utf8_cut [OF s2 this] obtain a b where ab: "s2 = a @ b"
    and a: "utf8_encode a = Inr (take p buf)" and b: "utf8_encode b = Inr (drop p buf)"
    by blast
  have "take (k + p) enc = take k enc @ take p buf"
    by (simp add: take_add buf)
  with utf8_encode_append [OF s1 a]
  have 1: "utf8_encode (s1 @ a) = Inr (take (k + p) enc)"
    by simp
  have 2: "drop p buf = drop (k + p) enc"
    by (simp add: buf add.commute)
  from pl(1) k have 3: "k + p \<le> length enc"
    by (simp add: buf)
  from s ab have 4: "s = (s1 @ a) @ b"
    by simp
  from b have 5: "utf8_encode b = Inr (drop (find_split buf 75) buf)"
    by (simp add: p_def)
  from 1 2 3 4 5 show ?case
    unfolding p_def by blast
qed

text \<open>
  \<open>fold_reach\<close> is the loop: on an encoded string, the loop started on \<open>enc\<close> comes to the
  head of an iteration with every buffer \<open>fold_reach\<close> gives, and some list of chunks.
\<close>

lemma fold_reach_loop_state:
  assumes "utf8_encode s = Inr enc" "fold_reach enc buf"
  shows "\<exists>result. fold_loop enc [] = fold_loop buf result"
  using assms(2)
proof (induction rule: fold_reach.induct)
  case start
  show ?case by blast
next
  case (step buf)
  then obtain result where r: "fold_loop enc [] = fold_loop buf result"
    by blast
  from fold_reach_encoded [OF assms(1) step.hyps(1)] obtain s2
    where s2: "utf8_encode s2 = Inr buf"
    by blast
  define p where "p = find_split buf 75"
  from find_split_encoded [OF s2 step.hyps(2)]
  have p: "p \<le> 75" "\<not> is_continuation (buf ! p)"
    by (simp_all add: p_def)
  with step.hyps(2) have "p \<le> length buf" "p < length buf \<longrightarrow> \<not> is_continuation (buf ! p)"
    by simp_all
  from utf8_cut [OF s2 this] obtain a where a: "utf8_encode a = Inr (take p buf)"
    by blast
  have "fold_loop buf result = fold_loop (drop p buf) (result @ [a])"
    using step.hyps(2)
    by (subst fold_loop.simps) (simp add: p_def [symmetric] utf8_decode_encode [OF a])
  with r show ?case
    unfolding p_def by metis
qed

lemma ics_fold_line_total: "\<exists>r. ics_fold_line line = Some r"
proof (cases "utf8_encode line")
  case (Inl e)
  then show ?thesis
    by (simp add: ics_fold_line_def)
next
  case (Inr enc)
  from fold_loop_correct [OF Inr, of "[]"] obtain chunks lst lb
    where "fold_loop enc [] = Some (Inr (lb, [] @ chunks))" "utf8_encode lst = Inr lb"
    by blast
  with Inr utf8_decode_encode [of lst lb] show ?thesis
    by (simp add: ics_fold_line_def)
qed

text \<open>
  Claim C10. \<open>ics_fold_line\<close> returns (a string or an exception) on every input string. On
  an encoded string its folding loop comes to the head of an iteration with the buffers that
  \<open>fold_reach\<close> gives, and in every such iteration the split point is at least 1, so that
  the buffer left for the next iteration is strictly shorter.
\<close>

theorem ics_fold_line_terminates:
  "(\<exists>r. ics_fold_line line = Some r) \<and>
   (\<forall>enc buf. utf8_encode line = Inr enc \<longrightarrow> fold_reach enc buf \<longrightarrow>
      (\<exists>result. fold_loop enc [] = fold_loop buf result) \<and>
      (75 < length buf \<longrightarrow>
         1 \<le> find_split buf 75 \<and> length (drop (find_split buf 75) buf) < length buf))"
proof (intro conjI allI impI)
  show "\<exists>r. ics_fold_line line = Some r"
    by (rule ics_fold_line_total)
next
  fix enc buf
  assume enc: "utf8_encode line = Inr enc" and reach: "fold_reach enc buf"
  show "\<exists>result. fold_loop enc [] = fold_loop buf result"
    by (rule fold_reach_loop_state [OF enc reach])
  assume long: "75 < length buf"
  from fold_reach_encoded [OF enc reach] obtain s2 where "utf8_encode s2 = Inr buf"
    by blast
  from find_split_encoded(1) [OF this long] show "1 \<le> find_split buf 75"
    by simp
  with long show "length (drop (find_split buf 75) buf) < length buf"
    by simp
qed

theorem ics_fold_line_terminates_witness:
  "(\<exists>r. ics_fold_line (replicate 76 97) = Some r)
   \<and> utf8_encode (replicate 76 97) = Inr (replicate 76 97)
   \<and> fold_reach (replicate 76 97) (replicate 76 97)
   \<and> 75 < length (replicate 76 (97::nat))
   \<and> 1 \<le> find_split (replicate 76 97) 75
   \<and> length (drop (find_split (replicate 76 97) 75) (replicate 76 (97::nat))) < 76"
proof -
  have enc: "utf8_encode (replicate 76 97) = Inr (replicate 76 97)"
    by code_simp
  have reach: "fold_reach (replicate 76 97) (replicate 76 97)"
    by (rule fold_reach.start)
  have long: "75 < length (replicate 76 (97::nat))"
    by simp
  from ics_fold_line_terminates [of "replicate 76 97"]
  have total: "\<exists>r. ics_fold_line (replicate 76 97) = Some r"
    and shrink: "1 \<le> find_split (replicate 76 97) 75
      \<and> length (drop (find_split (replicate 76 97) 75) (replicate 76 (97::nat)))
          < length (replicate 76 (97::nat))"
    using enc reach long by blast+
  from total enc reach long shrink show ?thesis
    by simp
qed

section \<open>Escaping\<close>

lemma replace_single:
  "replace [a] new s = concat (map (\<lambda>c. if c = a then new else [c]) s)"
proof (induction s)
  case Nil
  show ?case by (subst replace.simps) simp
next
  case (Cons x xs)
  show ?case
    by (subst replace.simps) (simp add: Cons.IH)
qed

lemma concat_map_concat_map:
  "concat (map f (concat (map g s))) = concat (map (\<lambda>c. concat (map f (g c))) s)"
  by (induction s) simp_all

lemma ics_escape_hom: "ics_escape s = concat (map escape_char_spec s)"
proof -
  have "ics_escape s = concat (map (\<lambda>c. concat (map (\<lambda>c. if c = 10 then [92, 110] else [c])
          (concat (map (\<lambda>c. if c = 44 then [92, 44] else [c])
          (concat (map (\<lambda>c. if c = 59 then [92, 59] else [c])
            (if c = 92 then [92, 92] else [c]))))))) s)"
    by (simp add: ics_escape_def Let_def replace_single concat_map_concat_map)
  also have "\<dots> = concat (map escape_char_spec s)"
    by (intro arg_cong [where f = concat] map_cong refl) (simp add: escape_char_spec_def)
  finally show ?thesis .
qed

section \<open>Unfolding and code-point boundaries\<close>

lemma has_sub_append1: "has_sub m a \<Longrightarrow> has_sub m (a @ b)"
proof (induction a)
  case Nil
  then show ?case by (cases b) simp_all
next
  case (Cons x xs)
  show ?case
  proof (cases "take (length m) (x # xs) = m")
    case True
    from arg_cong [OF True, of length] have "length m \<le> length (x # xs)"
      by simp
    with True have "take (length m) ((x # xs) @ b) = m"
      by (simp only: take_append) simp
    then show ?thesis by simp
  next
    case False
    with Cons show ?thesis by simp
  qed
qed

lemma has_sub_append2: "has_sub m b \<Longrightarrow> has_sub m (a @ b)"
  by (induction a) simp_all

lemma no_sub_concat:
  "\<not> has_sub m (concat cs) \<Longrightarrow> c \<in> set cs \<Longrightarrow> \<not> has_sub m c"
proof (induction cs)
  case Nil
  then show ?case by simp
next
  case (Cons a cs)
  then show ?case
    using has_sub_append1 [of m a "concat cs"] has_sub_append2 [of m "concat cs" a]
    by auto
qed

lemma replace_skip:
  "old \<noteq> [] \<Longrightarrow> take (length old) (x # xs) \<noteq> old
   \<Longrightarrow> replace old new (x # xs) = x # replace old new xs"
  by (subst replace.simps) simp

lemma replace_hit:
  "old \<noteq> [] \<Longrightarrow> replace old new (old @ rest) = new @ replace old new rest"
  by (subst replace.simps) simp

lemma replace_Nil: "old \<noteq> [] \<Longrightarrow> replace old new [] = []"
  by (subst replace.simps) simp

lemma replace_marker_id:
  "\<not> has_sub [13, 10, 32] c \<Longrightarrow> replace [13, 10, 32::nat] [] c = c"
proof (induction c)
  case Nil
  show ?case by (simp add: replace_Nil)
next
  case (Cons x xs)
  then have "take (length [13, 10, 32::nat]) (x # xs) \<noteq> [13, 10, 32]"
    and "replace [13, 10, 32] [] xs = xs"
    by simp_all
  then show ?case
    by (simp only: replace_skip [OF _ \<open>take _ _ \<noteq> _\<close>, simplified])
qed

lemma replace_marker_chunk:
  "\<not> has_sub [13, 10, 32] c
   \<Longrightarrow> replace [13, 10, 32::nat] [] (c @ [13, 10, 32] @ rest) = c @ replace [13, 10, 32] [] rest"
proof (induction c)
  case Nil
  show ?case
    using replace_hit [of "[13, 10, 32::nat]" "[]" rest] by simp
next
  case (Cons x xs)
  then have nope: "take (length [13, 10, 32::nat]) (x # xs) \<noteq> [13, 10, 32]"
    and tail: "\<not> has_sub [13, 10, 32] xs"
    by simp_all
  have "take (length [13, 10, 32::nat]) (x # xs @ [13, 10, 32] @ rest) \<noteq> [13, 10, 32]"
  proof (cases xs)
    case Nil
    then show ?thesis by simp
  next
    case (Cons y ys)
    with nope show ?thesis by (cases ys) auto
  qed
  then have "replace [13, 10, 32] [] (x # xs @ [13, 10, 32] @ rest)
             = x # replace [13, 10, 32] [] (xs @ [13, 10, 32] @ rest)"
    by (intro replace_skip) simp_all
  with Cons.IH [OF tail] show ?case
    by simp
qed

lemma replace_marker_join:
  "cs \<noteq> [] \<Longrightarrow> \<forall>c\<in>set cs. \<not> has_sub [13, 10, 32] c
   \<Longrightarrow> replace [13, 10, 32::nat] [] (join [13, 10, 32] cs) = concat cs"
proof (induction "[13, 10, 32::nat]" cs rule: join.induct)
  case 1
  then show ?case by simp
next
  case (2 x)
  then show ?case by (simp add: replace_marker_id)
next
  case (3 x y ys)
  then have "replace [13, 10, 32] [] (join [13, 10, 32] (y # ys)) = concat (y # ys)"
    and "\<not> has_sub [13, 10, 32] x"
    by simp_all
  with replace_marker_chunk [of x "join [13, 10, 32] (y # ys)"] show ?case
    by simp
qed

lemma boundaries_prefix:
  "utf8_encode s1 = Inr b1 \<Longrightarrow> off + length b1 \<in> set (boundaries (s1 @ s2) off)"
proof (induction s1 arbitrary: off b1)
  case Nil
  then show ?case by (cases s2) simp_all
next
  case (Cons c cs)
  from Cons.prems obtain bs r where c: "utf8_char c = Inr bs"
    and r: "utf8_encode cs = Inr r" and b: "b1 = bs @ r"
    unfolding utf8_encode_Cons by blast
  from Cons.IH [OF r, of "off + length bs"] show ?case
    by (simp add: c b add.assoc)
qed

lemma utf8_encode_replicate:
  "utf8_char c = Inr bs \<Longrightarrow> utf8_encode (replicate n c) = Inr (concat (replicate n bs))"
  by (induction n) simp_all

lemma length_concat_replicate: "length (concat (replicate n bs)) = n * length bs"
  by (induction n) simp_all

lemma no_sub_without_head: "x \<notin> set s \<Longrightarrow> \<not> has_sub (x # m) s"
  by (induction s) auto


text \<open>
  Claim C3. \<open>ics_escape\<close> is the character-by-character map that puts a backslash before a
  backslash, a semicolon and a comma, turns a newline into backslash-n and keeps every other
  character: the backslashes the later replacements bring in are not escaped again. In
  particular \<open>a,b\<close> becomes \<open>a\,b\<close>.
\<close>

theorem ics_escape_homomorphism:
  "ics_escape s = concat (map escape_char_spec s)
   \<and> ics_escape (str ''a,b'') = str ''a'' @ [92] @ str '',b''"
proof
  show "ics_escape s = concat (map escape_char_spec s)"
    by (rule ics_escape_hom)
  show "ics_escape (str ''a,b'') = str ''a'' @ [92] @ str '',b''"
    by (simp add: ics_escape_hom escape_char_spec_def str_def)
qed

text \<open>
  Claim C2, as amended. For a string whose encoding is longer than 75 bytes: every cut the
  loop of \<open>ics_fold_line\<close> makes is at a code-point boundary of the string; the output is the
  chunks joined by CRLF and a space, and the chunks concatenated are the string; and when the
  string does not itself contain CRLF followed by a space, removing every CRLF-space from the
  output gives the string back.
\<close>

theorem ics_fold_line_roundtrip:
  assumes "utf8_encode line = Inr enc" "75 < length enc"
  shows "(\<forall>buf. fold_reach enc buf \<longrightarrow> 75 < length buf \<longrightarrow>
            length enc - length buf + find_split buf 75 \<in> set (boundaries line 0))
       \<and> (\<exists>chunks. ics_fold_line line = Some (Inr (join [13, 10, 32] chunks))
             \<and> concat chunks = line
             \<and> (\<not> has_sub [13, 10, 32] line \<longrightarrow>
                  replace [13, 10, 32] [] (join [13, 10, 32] chunks) = line))"
proof (intro conjI allI impI)
  fix buf
  assume reach: "fold_reach enc buf" and long: "75 < length buf"
  from fold_reach_encoded [OF assms(1) reach] obtain k s1 s2 where s: "line = s1 @ s2"
    and s2: "utf8_encode s2 = Inr buf" and s1: "utf8_encode s1 = Inr (take k enc)"
    and buf: "buf = drop k enc" and k: "k \<le> length enc"
    by blast
  define p where "p = find_split buf 75"
  from find_split_encoded [OF s2 long]
  have p: "p \<le> 75" "\<not> is_continuation (buf ! p)"
    by (simp_all add: p_def)
  with long have "p \<le> length buf" "p < length buf \<longrightarrow> \<not> is_continuation (buf ! p)"
    by simp_all
  from utf8_cut [OF s2 this] obtain a b where ab: "s2 = a @ b"
    and a: "utf8_encode a = Inr (take p buf)"
    by blast
  from boundaries_prefix [OF utf8_encode_append [OF s1 a], of 0 b]
  have "length (take k enc @ take p buf) \<in> set (boundaries line 0)"
    by (simp add: s ab)
  moreover from k p long have "length (take k enc @ take p buf) = length enc - length buf + p"
    by (simp add: buf)
  ultimately show "length enc - length buf + find_split buf 75 \<in> set (boundaries line 0)"
    by (simp add: p_def)
next
  from fold_loop_correct [OF assms(1), of "[]"] obtain chunks lst lb
    where loop: "fold_loop enc [] = Some (Inr (lb, chunks))"
      and lst: "utf8_encode lst = Inr lb" and cat: "concat chunks @ lst = line"
    by auto
  have out: "ics_fold_line line = Some (Inr (join [13, 10, 32] (chunks @ [lst])))"
    using assms by (simp add: ics_fold_line_def loop utf8_decode_encode [OF lst])
  have unfold: "replace [13, 10, 32] [] (join [13, 10, 32] (chunks @ [lst])) = line"
    if "\<not> has_sub [13, 10, 32] line"
  proof -
    from that cat have "\<forall>c\<in>set (chunks @ [lst]). \<not> has_sub [13, 10, 32] c"
      using no_sub_concat [of "[13, 10, 32]" "chunks @ [lst]"] by auto
    with replace_marker_join [of "chunks @ [lst]"] cat show ?thesis
      by simp
  qed
  from out cat unfold
  show "\<exists>chunks. ics_fold_line line = Some (Inr (join [13, 10, 32] chunks))
          \<and> concat chunks = line
          \<and> (\<not> has_sub [13, 10, 32] line \<longrightarrow>
               replace [13, 10, 32] [] (join [13, 10, 32] chunks) = line)"
    by (intro exI [of _ "chunks @ [lst]"]) simp
qed

theorem ics_fold_line_roundtrip_witness:
  "utf8_encode (97 # replicate 26 0x6771) = Inr (97 # concat (replicate 26 [230, 157, 177]))
   \<and> 75 < length (97 # concat (replicate 26 [230, 157, 177::nat]))
   \<and> fold_reach (97 # concat (replicate 26 [230, 157, 177])) (97 # concat (replicate 26 [230, 157, 177]))
   \<and> find_split (97 # concat (replicate 26 [230, 157, 177])) 75 = 73
   \<and> 73 \<in> set (boundaries (97 # replicate 26 0x6771) 0)
   \<and> \<not> has_sub [13, 10, 32] (97 # replicate 26 (0x6771::nat))
   \<and> (\<exists>chunks. ics_fold_line (97 # replicate 26 0x6771) = Some (Inr (join [13, 10, 32] chunks))
         \<and> concat chunks = 97 # replicate 26 0x6771
         \<and> replace [13, 10, 32] [] (join [13, 10, 32] chunks) = 97 # replicate 26 0x6771)"
proof -
  let ?L = "97 # replicate 26 (0x6771::nat)"
  let ?E = "97 # concat (replicate 26 [230, 157, 177::nat])"
  have c: "utf8_char 0x6771 = Inr [230, 157, 177]"
    by (simp add: utf8_char_def)
  have a: "utf8_char 97 = Inr [97]"
    by (simp add: utf8_char_def)
  have enc: "utf8_encode ?L = Inr ?E"
    by (simp add: a utf8_encode_replicate [OF c])
  have long: "75 < length ?E"
    by (simp add: length_concat_replicate)
  have reach: "fold_reach ?E ?E"
    by (rule fold_reach.start)
  have split: "find_split ?E 75 = 73"
    by code_simp
  have nosub: "\<not> has_sub [13, 10, 32] ?L"
    by (rule no_sub_without_head) simp
  from ics_fold_line_roundtrip [OF enc long]
  have cut: "length ?E - length ?E + find_split ?E 75 \<in> set (boundaries ?L 0)"
    and out: "\<exists>chunks. ics_fold_line ?L = Some (Inr (join [13, 10, 32] chunks))
         \<and> concat chunks = ?L
         \<and> replace [13, 10, 32] [] (join [13, 10, 32] chunks) = ?L"
    using reach long nosub by blast+
  from cut split have "73 \<in> set (boundaries ?L 0)"
    by simp
  with enc long reach split nosub out show ?thesis
    by blast
qed

text \<open>
  The claim as first stated fails on a string that holds CRLF and a space of its own: removing
  every CRLF-space from the folded output removes that one as well.
\<close>

theorem ics_fold_line_roundtrip_counterexample:
  "utf8_encode ([13, 10, 32] @ replicate 73 97) = Inr ([13, 10, 32] @ replicate 73 97)
   \<and> 75 < length ([13, 10, 32] @ replicate 73 (97::nat))
   \<and> ics_fold_line ([13, 10, 32] @ replicate 73 97)
       = Some (Inr ([13, 10, 32] @ replicate 72 97 @ [13, 10, 32] @ [97]))
   \<and> replace [13, 10, 32] [] ([13, 10, 32] @ replicate 72 97 @ [13, 10, 32] @ [97])
       = replicate 73 (97::nat)
   \<and> replicate 73 (97::nat) \<noteq> [13, 10, 32] @ replicate 73 97"
  by code_simp

text \<open>
  Claim C7. A physical line of the output is at most 75 octets long. The code cuts chunks of
  up to 75 octets and then puts a space before every chunk but the first, so a continuation
  line can be 76 octets long, as on 150 letters \<open>a\<close>.
\<close>

theorem ics_fold_line_continuation_76_octets:
  "ics_fold_line (replicate 150 97)
     = Some (Inr (replicate 75 97 @ [13, 10, 32] @ replicate 75 97))
   \<and> physical_lines (replicate 75 97 @ [13, 10, 32] @ replicate 75 97)
     = [replicate 75 97, 32 # replicate 75 97]
   \<and> utf8_encode (32 # replicate 75 97) = Inr (32 # replicate 75 97)
   \<and> length (32 # replicate 75 (97::nat)) = 76"
  by code_simp

section \<open>The loader: errors and order\<close>

lemma has_key_simps:
  "has_key d ''month'' = (doc_month d \<noteq> None)"
  "has_key d ''day'' = (doc_day d \<noteq> None)"
  "has_key d ''name'' = (doc_name d \<noteq> None)"
  "has_key d ''message'' = (doc_message d \<noteq> None)"
  "has_key d ''explanation'' = (doc_explanation d \<noteq> None)"
  by (simp_all add: has_key_def)

lemma all_required:
  "list_all (has_key d) required_keys \<longleftrightarrow>
     doc_month d \<noteq> None \<and> doc_day d \<noteq> None \<and> doc_name d \<noteq> None
     \<and> doc_message d \<noteq> None \<and> doc_explanation d \<noteq> None"
  by (simp add: required_keys_def has_key_simps)

lemma required_keys_set:
  "set required_keys = {''month'', ''day'', ''name'', ''message'', ''explanation''}"
  by (simp add: required_keys_def)

lemma getitem_Inl: "getitem entry k = Inl e \<longleftrightarrow> entry = None \<and> e = KeyError (str k)"
  by (auto simp: getitem_def split: option.splits)

lemma getitem_Inr: "getitem entry k = Inr v \<longleftrightarrow> entry = Some v"
  by (auto simp: getitem_def split: option.splits)

lemma parse_event_unfold:
  "parse_event d =
     (if doc_month d = None then Inl (KeyError (str ''month''))
      else if doc_day d = None then Inl (KeyError (str ''day''))
      else if doc_name d = None then Inl (KeyError (str ''name''))
      else if doc_message d = None then Inl (KeyError (str ''message''))
      else if doc_explanation d = None then Inl (KeyError (str ''explanation''))
      else Inr \<lparr>month = the (doc_month d), day = the (doc_day d), name = the (doc_name d),
         message = the (doc_message d), explanation = the (doc_explanation d),
         explanation_short = doc_explanation_short d,
         characters = list_or_empty (doc_characters d),
         citations = list_or_empty (doc_citations d)\<rparr>)"
  by (simp add: parse_event_def Let_def getitem_def split: option.splits)

lemma parse_event_Inl:
  assumes "parse_event d = Inl e"
  shows "\<exists>k. k \<in> set required_keys \<and> \<not> has_key d k \<and> e = KeyError (str k)"
proof -
  consider "doc_month d = None" "e = KeyError (str ''month'')"
    | "doc_day d = None" "e = KeyError (str ''day'')"
    | "doc_name d = None" "e = KeyError (str ''name'')"
    | "doc_message d = None" "e = KeyError (str ''message'')"
    | "doc_explanation d = None" "e = KeyError (str ''explanation'')"
    using assms unfolding parse_event_unfold by (auto split: if_splits)
  then show ?thesis
  proof cases
    case 1
    then show ?thesis
      by (intro exI [of _ "''month''"]) (simp add: required_keys_set has_key_simps)
  next
    case 2
    then show ?thesis
      by (intro exI [of _ "''day''"]) (simp add: required_keys_set has_key_simps)
  next
    case 3
    then show ?thesis
      by (intro exI [of _ "''name''"]) (simp add: required_keys_set has_key_simps)
  next
    case 4
    then show ?thesis
      by (intro exI [of _ "''message''"]) (simp add: required_keys_set has_key_simps)
  next
    case 5
    then show ?thesis
      by (intro exI [of _ "''explanation''"]) (simp add: required_keys_set has_key_simps)
  qed
qed

lemma parse_event_Inr:
  assumes "list_all (has_key d) required_keys"
  shows "parse_event d =
    Inr \<lparr>month = the (doc_month d), day = the (doc_day d), name = the (doc_name d),
         message = the (doc_message d), explanation = the (doc_explanation d),
         explanation_short = doc_explanation_short d,
         characters = list_or_empty (doc_characters d),
         citations = list_or_empty (doc_citations d)\<rparr>"
  using assms unfolding all_required parse_event_unfold by simp

lemma parse_event_missing:
  assumes "\<not> list_all (has_key d) required_keys"
  shows "\<exists>e. parse_event d = Inl e"
  using assms unfolding all_required parse_event_unfold by auto

lemma parse_docs_Inl:
  "parse_docs docs acc = Inl e \<Longrightarrow> \<exists>k\<in>set required_keys. e = KeyError (str k)"
proof (induction docs acc rule: parse_docs.induct)
  case (1 events)
  then show ?case by simp
next
  case (2 ds events)
  then show ?case by simp
next
  case (3 d ds events)
  then show ?case
    by (auto split: sum.splits dest: parse_event_Inl)
qed

lemma parse_docs_fails:
  "Some d \<in> set docs \<Longrightarrow> parse_event d = Inl e \<Longrightarrow> \<exists>e'. parse_docs docs acc = Inl e'"
proof (induction docs acc rule: parse_docs.induct)
  case (1 events)
  then show ?case by simp
next
  case (2 ds events)
  then show ?case by simp
next
  case (3 d' ds events)
  then show ?case
    by (cases "parse_event d'") auto
qed

lemma load_months_Inl:
  "load_months fs ms acc = Inl e \<Longrightarrow>
     (\<exists>m\<in>set ms. fs m = None \<and> e = FileNotFoundError m)
     \<or> (\<exists>k\<in>set required_keys. e = KeyError (str k))"
proof (induction fs ms acc rule: load_months.induct)
  case (1 fs events)
  then show ?case by simp
next
  case (2 fs m ms events)
  then show ?case
    by (auto split: option.splits sum.splits dest: parse_docs_Inl)
qed

lemma load_months_fails:
  "m \<in> set ms \<Longrightarrow> fs m = Some docs \<Longrightarrow> Some d \<in> set docs \<Longrightarrow> parse_event d = Inl e
   \<Longrightarrow> \<exists>e'. load_months fs ms acc = Inl e'"
proof (induction fs ms acc rule: load_months.induct)
  case (1 fs events)
  then show ?case by simp
next
  case (2 fs m' ms events)
  show ?case
  proof (cases "fs m'")
    case None
    then show ?thesis by simp
  next
    case (Some docs')
    show ?thesis
    proof (cases "parse_docs docs' events")
      case (Inl e')
      with Some show ?thesis by simp
    next
      case (Inr events')
      with Some 2 parse_docs_fails [of d docs' e events] show ?thesis
        by (cases "m = m'") auto
    qed
  qed
qed

text \<open>
  Claim C9. A block that has the required keys and whose \<open>characters\<close> or \<open>citations\<close> is
  present but not a list parses without error, and the field of the event is the empty list.
\<close>

theorem parse_event_coerces_non_lists:
  assumes "list_all (has_key d) required_keys"
  shows "\<exists>ev. parse_event d = Inr ev
           \<and> (\<forall>v. doc_characters d = Some v \<and> (\<forall>xs. v \<noteq> YList xs) \<longrightarrow> characters ev = [])
           \<and> (\<forall>v. doc_citations d = Some v \<and> (\<forall>xs. v \<noteq> YList xs) \<longrightarrow> citations ev = [])"
proof -
  have "list_or_empty (Some v) = []" if "\<forall>xs. v \<noteq> YList xs" for v
    using that by (cases v) (simp_all add: list_or_empty_def)
  then show ?thesis
    by (auto simp: parse_event_Inr [OF assms])
qed

theorem parse_event_coerces_non_lists_witness:
  "list_all (has_key \<lparr>doc_month = Some 4, doc_day = Some 1, doc_name = Some (str ''N''),
       doc_message = Some (str ''M''), doc_explanation = Some (str ''E''),
       doc_explanation_short = None,
       doc_characters = Some (YStr (str ''not a list'')), doc_citations = Some (YInt 3)\<rparr>)
     required_keys
   \<and> (\<exists>ev. parse_event \<lparr>doc_month = Some 4, doc_day = Some 1, doc_name = Some (str ''N''),
       doc_message = Some (str ''M''), doc_explanation = Some (str ''E''),
       doc_explanation_short = None,
       doc_characters = Some (YStr (str ''not a list'')), doc_citations = Some (YInt 3)\<rparr> = Inr ev
         \<and> characters ev = [] \<and> citations ev = [])"
proof -
  let ?d = "\<lparr>doc_month = Some 4, doc_day = Some 1, doc_name = Some (str ''N''),
       doc_message = Some (str ''M''), doc_explanation = Some (str ''E''),
       doc_explanation_short = None,
       doc_characters = Some (YStr (str ''not a list'')), doc_citations = Some (YInt 3)\<rparr>"
  have req: "list_all (has_key ?d) required_keys"
    by (simp add: all_required)
  from parse_event_coerces_non_lists [OF req] obtain ev where "parse_event ?d = Inr ev"
    and "characters ev = []" and "citations ev = []"
    by auto
  with req show ?thesis
    by blast
qed

text \<open>
  The key of the \<open>KeyError\<close> is the first required key the block lacks: the keys before it
  in \<open>required_keys\<close>, the order in which \<open>parse_event\<close> reads them, are all present.
\<close>

lemma parse_event_first_missing:
  assumes "parse_event d = Inl e"
  shows "\<exists>k. k \<in> set required_keys \<and> \<not> has_key d k
           \<and> list_all (has_key d) (takeWhile (\<lambda>k'. k' \<noteq> k) required_keys)
           \<and> e = KeyError (str k)"
proof -
  consider "doc_month d = None" "e = KeyError (str ''month'')"
    | "doc_month d \<noteq> None" "doc_day d = None" "e = KeyError (str ''day'')"
    | "doc_month d \<noteq> None" "doc_day d \<noteq> None" "doc_name d = None"
      "e = KeyError (str ''name'')"
    | "doc_month d \<noteq> None" "doc_day d \<noteq> None" "doc_name d \<noteq> None"
      "doc_message d = None" "e = KeyError (str ''message'')"
    | "doc_month d \<noteq> None" "doc_day d \<noteq> None" "doc_name d \<noteq> None"
      "doc_message d \<noteq> None" "doc_explanation d = None"
      "e = KeyError (str ''explanation'')"
    using assms unfolding parse_event_unfold by (auto split: if_splits)
  then show ?thesis
  proof cases
    case 1
    then show ?thesis
      by (intro exI [of _ "''month''"]) (simp add: required_keys_def has_key_simps)
  next
    case 2
    then show ?thesis
      by (intro exI [of _ "''day''"]) (simp add: required_keys_def has_key_simps)
  next
    case 3
    then show ?thesis
      by (intro exI [of _ "''name''"]) (simp add: required_keys_def has_key_simps)
  next
    case 4
    then show ?thesis
      by (intro exI [of _ "''message''"]) (simp add: required_keys_def has_key_simps)
  next
    case 5
    then show ?thesis
      by (intro exI [of _ "''explanation''"]) (simp add: required_keys_def has_key_simps)
  qed
qed

text \<open>
  Claim C8, as amended. When a block of one of the twelve sources lacks a required key,
  \<open>parse_event\<close> of that block raises \<open>KeyError\<close> with the first required key the block
  lacks, in the order month, day, name, message, explanation (every required key before it
  is present); \<open>load_events\<close> fails and \<open>main\<close> ends with that exception in the world it
  started in, the output file not written; and when all twelve sources exist the exception
  of \<open>load_events\<close> is a \<open>KeyError\<close> naming a required key. The exception carries the key
  only.
\<close>

theorem missing_required_key_fails:
  assumes "m \<in> set [1..<13]" "files w m = Some docs" "Some d \<in> set docs"
    "\<not> list_all (has_key d) required_keys"
  shows "(\<exists>k. k \<in> set required_keys \<and> \<not> has_key d k
            \<and> list_all (has_key d) (takeWhile (\<lambda>k'. k' \<noteq> k) required_keys)
            \<and> parse_event d = Inl (KeyError (str k)))
       \<and> (\<exists>e. load_events (files w) = Inl e \<and> main w = Some (Some e, w))
       \<and> (list_all (\<lambda>m'. files w m' \<noteq> None) [1..<13] \<longrightarrow>
            (\<exists>k. k \<in> set required_keys \<and> load_events (files w) = Inl (KeyError (str k))))"
proof -
  from parse_event_missing [OF assms(4)] obtain e where e: "parse_event d = Inl e"
    by blast
  from parse_event_first_missing [OF e]
  have 1: "\<exists>k. k \<in> set required_keys \<and> \<not> has_key d k
            \<and> list_all (has_key d) (takeWhile (\<lambda>k'. k' \<noteq> k) required_keys)
            \<and> parse_event d = Inl (KeyError (str k))"
    using e by auto
  from load_months_fails [of m "[1..<13]" "files w" docs d e "[]", OF assms(1) assms(2) assms(3) e]
  obtain e' where e': "load_months (files w) [1..<13] [] = Inl e'"
    by blast
  then have le: "load_events (files w) = Inl e'"
    by (simp add: load_events_def)
  then have 2: "\<exists>e. load_events (files w) = Inl e \<and> main w = Some (Some e, w)"
    by (simp add: main_def)
  have 3: "\<exists>k. k \<in> set required_keys \<and> load_events (files w) = Inl (KeyError (str k))"
    if "list_all (\<lambda>m'. files w m' \<noteq> None) [1..<13]"
  proof -
    from that have "\<forall>m'\<in>set [1..<13]. files w m' \<noteq> None"
      by (simp only: list_all_iff)
    with load_months_Inl [OF e'] le show ?thesis
      by auto
  qed
  from 1 2 3 show ?thesis
    by blast
qed

theorem missing_required_key_fails_witness:
  "2 \<in> set [1..<13]
   \<and> files \<lparr>files = (\<lambda>m. if m = 2 then Some [None, Some block_without_day_and_message]
                          else Some []),
             output_file = None, stdout = []\<rparr> 2
       = Some [None, Some block_without_day_and_message]
   \<and> Some block_without_day_and_message \<in> set [None, Some block_without_day_and_message]
   \<and> \<not> list_all (has_key block_without_day_and_message) required_keys
   \<and> list_all (\<lambda>m'. files \<lparr>files = (\<lambda>m. if m = 2
                                           then Some [None, Some block_without_day_and_message]
                                           else Some []),
             output_file = None, stdout = []\<rparr> m' \<noteq> None) [1..<13]
   \<and> \<not> has_key block_without_day_and_message ''day''
   \<and> \<not> has_key block_without_day_and_message ''message''
   \<and> parse_event block_without_day_and_message = Inl (KeyError (str ''day''))
   \<and> (\<exists>k. k \<in> set required_keys
        \<and> load_events (\<lambda>m. if m = 2 then Some [None, Some block_without_day_and_message]
                           else Some [])
            = Inl (KeyError (str k)))
   \<and> (\<exists>e. main \<lparr>files = (\<lambda>m. if m = 2 then Some [None, Some block_without_day_and_message]
                               else Some []),
             output_file = None, stdout = []\<rparr>
        = Some (Some e, \<lparr>files = (\<lambda>m. if m = 2
                                        then Some [None, Some block_without_day_and_message]
                                        else Some []),
             output_file = None, stdout = []\<rparr>))"
proof -
  let ?d = block_without_day_and_message
  let ?w = "\<lparr>files = (\<lambda>m. if m = 2 then Some [None, Some ?d] else Some []),
             output_file = None, stdout = []\<rparr>"
  have m: "(2::nat) \<in> set [1..<13]"
    by simp
  have f: "files ?w 2 = Some [None, Some ?d]"
    by simp
  have d: "Some ?d \<in> set [None, Some ?d]"
    by simp
  have k: "\<not> list_all (has_key ?d) required_keys"
    by (simp add: all_required block_without_day_and_message_def)
  have a: "list_all (\<lambda>m'. files ?w m' \<noteq> None) [1..<13]"
    by (simp add: list_all_iff)
  have present: "has_key ?d ''month''" "has_key ?d ''name''" "has_key ?d ''explanation''"
    and absent: "\<not> has_key ?d ''day''" "\<not> has_key ?d ''message''"
    by (simp_all add: has_key_simps block_without_day_and_message_def)
  from missing_required_key_fails [OF m f d k] a
  have first: "\<exists>k. k \<in> set required_keys \<and> \<not> has_key ?d k
        \<and> list_all (has_key ?d) (takeWhile (\<lambda>k'. k' \<noteq> k) required_keys)
        \<and> parse_event ?d = Inl (KeyError (str k))"
    and load: "\<exists>k. k \<in> set required_keys \<and> load_events (files ?w) = Inl (KeyError (str k))"
    and run: "\<exists>e. load_events (files ?w) = Inl e \<and> main ?w = Some (Some e, ?w)"
    by blast+
  from first obtain k' where k': "k' \<in> set required_keys" "\<not> has_key ?d k'"
    "list_all (has_key ?d) (takeWhile (\<lambda>x. x \<noteq> k') required_keys)"
    "parse_event ?d = Inl (KeyError (str k'))"
    by blast
  from k'(1) k'(2) present have "k' = ''day'' \<or> k' = ''message''"
    by (auto simp: required_keys_set)
  with k'(3) absent have "k' = ''day''"
    by (auto simp: required_keys_def)
  with k'(4) have day: "parse_event ?d = Inl (KeyError (str ''day''))"
    by simp
  from m f d k a absent day load run show ?thesis
    by auto
qed

text \<open>
  The exception does not identify the month source: the same block without \<open>message\<close>, in
  source 1 or in source 2, makes \<open>load_events\<close> fail with the same value.
\<close>

theorem missing_key_error_counterexample:
  "load_events (sources_with_bad_block 1) = Inl (KeyError (str ''message''))
   \<and> load_events (sources_with_bad_block 2) = Inl (KeyError (str ''message''))
   \<and> sources_with_bad_block 1 1 \<noteq> sources_with_bad_block 2 1"
  by code_simp

lemma sorted_same_mset:
  fixes xs ys :: "'a::linorder list"
  assumes "mset xs = mset ys" "sorted xs" "sorted ys"
  shows "xs = ys"
  using properties_for_sort [OF assms(1) assms(2)] properties_for_sort [OF refl assms(3)]
  by simp

text \<open>
  Claim C5. What \<open>load_events\<close> returns is the list of the parsed events sorted by
  \<open>(month, day, name)\<close>: ascending in the key, a permutation of the parsed events, and
  stable (events of equal keys keep their order). Events with the keys \<open>(3, 1, B)\<close>,
  \<open>(1, 5, A)\<close> and \<open>(1, 5, Z)\<close>, read in any order, come out as \<open>(1, 5, A)\<close>, \<open>(1, 5, Z)\<close>,
  \<open>(3, 1, B)\<close>.
\<close>

theorem load_events_sorted:
  assumes "load_events fs = Inr out"
  shows "\<exists>events. load_months fs [1..<13] [] = Inr events
           \<and> sorted (map event_key out) \<and> mset out = mset events
           \<and> (\<forall>k. filter (\<lambda>e. event_key e = k) out = filter (\<lambda>e. event_key e = k) events)
           \<and> (mset (map event_key events)
                 = {#(3, 1, str ''B''), (1, 5, str ''A''), (1, 5, str ''Z'')#}
               \<longrightarrow> map event_key out
                 = [(1, 5, str ''A''), (1, 5, str ''Z''), (3, 1, str ''B'')])"
proof -
  from assms obtain events where ev: "load_months fs [1..<13] [] = Inr events"
    and out: "out = sort_key event_key events"
    by (auto simp: load_events_def split: sum.splits)
  have s: "sorted (map event_key out)"
    by (simp add: out)
  have m: "mset out = mset events"
    by (simp add: out)
  have st: "\<forall>k. filter (\<lambda>e. event_key e = k) out = filter (\<lambda>e. event_key e = k) events"
    by (simp add: out sort_key_stable)
  have "map event_key out = [(1, 5, str ''A''), (1, 5, str ''Z''), (3, 1, str ''B'')]"
    if "mset (map event_key events) = {#(3, 1, str ''B''), (1, 5, str ''A''), (1, 5, str ''Z'')#}"
  proof (rule sorted_same_mset [OF _ s])
    from m have "mset (map event_key out) = mset (map event_key events)"
      by (metis mset_map)
    with that show "mset (map event_key out)
        = mset [(1, 5, str ''A''), (1, 5, str ''Z''), (3, 1, str ''B'')]"
      by simp
    show "sorted [(1::int, 5::int, str ''A''), (1, 5, str ''Z''), (3, 1, str ''B'')]"
      by (simp add: str_def)
  qed
  then have ex: "mset (map event_key events)
        = {#(3, 1, str ''B''), (1, 5, str ''A''), (1, 5, str ''Z'')#}
      \<longrightarrow> map event_key out = [(1, 5, str ''A''), (1, 5, str ''Z''), (3, 1, str ''B'')]"
    by (rule impI)
  show ?thesis
    by (rule exI [of _ events]) (intro conjI ev s m st ex)
qed

theorem load_events_sorted_witness:
  "load_events example_sources
     = Inr [example_event 1 5 ''A'', example_event 1 5 ''Z'', example_event 3 1 ''B'']
   \<and> load_months example_sources [1..<13] []
     = Inr [example_event 3 1 ''B'', example_event 1 5 ''Z'', example_event 1 5 ''A'']
   \<and> sorted (map event_key
       [example_event 1 5 ''A'', example_event 1 5 ''Z'', example_event 3 1 ''B''])
   \<and> map event_key [example_event 1 5 ''A'', example_event 1 5 ''Z'', example_event 3 1 ''B'']
     = [(1, 5, str ''A''), (1, 5, str ''Z''), (3, 1, str ''B'')]"
proof -
  let ?out = "[example_event 1 5 ''A'', example_event 1 5 ''Z'', example_event 3 1 ''B'']"
  have lm: "load_months example_sources [1..<13] []
         = Inr [example_event 3 1 ''B'', example_event 1 5 ''Z'', example_event 1 5 ''A'']"
    by code_simp
  have le: "load_events example_sources = Inr ?out"
    by code_simp
  have ms: "mset (map event_key
        [example_event 3 1 ''B'', example_event 1 5 ''Z'', example_event 1 5 ''A''])
      = {#(3, 1, str ''B''), (1, 5, str ''A''), (1, 5, str ''Z'')#}"
    by (simp add: event_key_def example_event_def)
  from load_events_sorted [OF le] lm ms
  have "sorted (map event_key ?out)"
    and "map event_key ?out = [(1, 5, str ''A''), (1, 5, str ''Z''), (3, 1, str ''B'')]"
    by auto
  with le lm show ?thesis
    by blast
qed

section \<open>UID, description and the built calendar\<close>

lemma sha_round_length: "length (sha_round s kw) = length s"
  by (cases "(s, kw)" rule: sha_round.cases) (simp_all add: Let_def)

lemma foldl_sha_round_length: "length (foldl sha_round s kws) = length s"
  by (induction kws arbitrary: s) (simp_all add: sha_round_length)

lemma sha_compress_length: "length (sha_compress h block) = length h"
  by (simp add: sha_compress_def foldl_sha_round_length)

lemma foldl_sha_compress_length: "length (foldl sha_compress h bs) = length h"
  by (induction bs arbitrary: h) (simp_all add: sha_compress_length)

lemma sha256_length: "length (sha256 msg) = 8"
  by (simp add: sha256_def foldl_sha_compress_length H256_def)

lemma hex_digit_is_hex: "d < 16 \<Longrightarrow> is_hex (hex_digit d)"
  by (auto simp: is_hex_def hex_digit_def)

lemma hex_byte_is_hex: "b < 256 \<Longrightarrow> list_all is_hex (hex_byte b)"
  by (simp add: hex_byte_def hex_digit_is_hex less_mult_imp_div_less)

lemma length_hex_byte: "length (hex_byte b) = 2"
  by (simp add: hex_byte_def)

lemma word_byte_bound: "unat (w AND (0xFF :: u32)) < 256"
proof -
  have "unat (w AND 0xFF) \<le> unat (0xFF :: u32)"
    by (rule word_and_le1 [THEN word_le_nat_alt [THEN iffD1]])
  then show ?thesis by simp
qed

lemma word_bytes_bound: "list_all (\<lambda>b. b < 256) (word_bytes w)"
  by (simp add: word_bytes_def word_byte_bound)

lemma length_word_bytes: "length (word_bytes w) = 4"
  by (simp add: word_bytes_def)

lemma length_concat_const:
  "(\<forall>x\<in>set xs. length (f x) = n) \<Longrightarrow> length (concat (map f xs)) = n * length xs"
  by (induction xs) simp_all

lemma sha256_hexdigest_length: "length (sha256_hexdigest msg) = 64"
proof -
  have "length (concat (map word_bytes (sha256 msg))) = 4 * 8"
    using length_concat_const [of "sha256 msg" word_bytes 4]
    by (simp add: length_word_bytes sha256_length)
  then show ?thesis
    using length_concat_const [of "concat (map word_bytes (sha256 msg))" hex_byte 2]
    by (simp add: sha256_hexdigest_def length_hex_byte)
qed

lemma hex_bytes_hex:
  "list_all (\<lambda>b. b < 256) bs \<Longrightarrow> list_all is_hex (concat (map hex_byte bs))"
  by (induction bs) (simp_all add: hex_byte_is_hex)

lemma word_bytes_concat_bound: "list_all (\<lambda>b. b < 256) (concat (map word_bytes ws))"
  by (induction ws) (simp_all add: word_bytes_bound)

lemma sha256_hexdigest_hex: "list_all is_hex (sha256_hexdigest msg)"
  by (simp add: sha256_hexdigest_def hex_bytes_hex word_bytes_concat_bound)

lemma dec_digit: "n < 10 \<Longrightarrow> dec n = [48 + n]"
  by (subst dec.simps) simp

lemma dec_two: "10 \<le> n \<Longrightarrow> n < 100 \<Longrightarrow> dec n = [48 + n div 10, 48 + n mod 10]"
  by (subst dec.simps) (simp add: dec_digit)

lemma format_02d_two_digits:
  assumes "0 \<le> x" "x < 100"
  shows "format_02d x = [48 + nat x div 10, 48 + nat x mod 10]"
proof (cases "x < 10")
  case True
  with assms show ?thesis
    by (simp add: format_02d_def dec_digit)
next
  case False
  with assms show ?thesis
    by (simp add: format_02d_def dec_two)
qed

lemma strip_strip: "strip (strip s) = strip s"
proof -
  define t where "t = dropWhile is_space s"
  define u where "u = dropWhile is_space (rev t)"
  have t: "t = [] \<or> \<not> is_space (hd t)"
    unfolding t_def by (metis dropWhile_eq_Nil_conv hd_dropWhile)
  have u: "u = [] \<or> \<not> is_space (hd u)"
    unfolding u_def by (metis dropWhile_eq_Nil_conv hd_dropWhile)
  have 1: "dropWhile is_space (rev u) = rev u"
  proof (cases "u = []")
    case True
    then show ?thesis by simp
  next
    case False
    then have "t \<noteq> []"
      by (auto simp: u_def)
    with t obtain x t' where x: "t = x # t'" "\<not> is_space x"
      by (cases t) auto
    then have "\<exists>zs. u = zs @ [x]"
      by (auto simp: u_def dropWhile_append)
    with x(2) show ?thesis
      by auto
  qed
  have 2: "dropWhile is_space u = u"
    using u by (cases u) auto
  show ?thesis
    by (simp add: strip_def t_def [symmetric] u_def [symmetric] 1 2)
qed

text \<open>
  Claim C4. When the string \<open>MM-DD-name\<close> of an event has an encoding, \<open>generate_uid\<close>
  returns the first 16 characters of the hexadecimal SHA-256 digest of that encoding, which
  are 16 hexadecimal digits, followed by \<open>@touhou-calendar\<close>; month and day from 0 to 99 are
  written with two digits; and two events with the same month, day and name have the same
  UID, whatever their other fields.
\<close>

theorem generate_uid_spec:
  "(\<forall>b. utf8_encode (unique_string e) = Inr b \<longrightarrow>
       generate_uid e = Inr (take 16 (sha256_hexdigest b) @ str ''@touhou-calendar'')
       \<and> length (take 16 (sha256_hexdigest b)) = 16
       \<and> list_all is_hex (take 16 (sha256_hexdigest b)))
   \<and> (0 \<le> month e \<and> month e < 100 \<and> 0 \<le> day e \<and> day e < 100 \<longrightarrow>
       unique_string e =
         [48 + nat (month e) div 10, 48 + nat (month e) mod 10] @ str ''-''
         @ [48 + nat (day e) div 10, 48 + nat (day e) mod 10] @ str ''-'' @ name e)
   \<and> (month e = month e' \<and> day e = day e' \<and> name e = name e' \<longrightarrow>
       generate_uid e = generate_uid e')"
proof (intro conjI allI impI)
  fix b
  assume b: "utf8_encode (unique_string e) = Inr b"
  then show "generate_uid e = Inr (take 16 (sha256_hexdigest b) @ str ''@touhou-calendar'')"
    by (simp add: generate_uid_def)
  show "length (take 16 (sha256_hexdigest b)) = 16"
    by (simp add: sha256_hexdigest_length)
  from sha256_hexdigest_hex [of b] show "list_all is_hex (take 16 (sha256_hexdigest b))"
    unfolding list_all_iff by (meson in_set_takeD)
next
  assume "0 \<le> month e \<and> month e < 100 \<and> 0 \<le> day e \<and> day e < 100"
  then show "unique_string e =
         [48 + nat (month e) div 10, 48 + nat (month e) mod 10] @ str ''-''
         @ [48 + nat (day e) div 10, 48 + nat (day e) mod 10] @ str ''-'' @ name e"
    by (simp add: unique_string_def format_02d_two_digits)
next
  assume "month e = month e' \<and> day e = day e' \<and> name e = name e'"
  then show "generate_uid e = generate_uid e'"
    by (simp add: generate_uid_def unique_string_def)
qed

theorem generate_uid_spec_witness:
  "utf8_encode (unique_string miyako_day) = Inr (str ''02-29-Miyako Day'')
   \<and> unique_string miyako_day = str ''02-29-Miyako Day''
   \<and> generate_uid miyako_day = Inr (str ''1246b52e625d9167@touhou-calendar'')
   \<and> generate_uid (miyako_day\<lparr>message := str ''other'', explanation := []\<rparr>)
       = Inr (str ''1246b52e625d9167@touhou-calendar'')"
proof -
  let ?e' = "miyako_day\<lparr>message := str ''other'', explanation := []\<rparr>"
  have u: "unique_string miyako_day = str ''02-29-Miyako Day''"
    by code_simp
  have enc: "utf8_encode (unique_string miyako_day) = Inr (str ''02-29-Miyako Day'')"
    by code_simp
  have h: "take 16 (sha256_hexdigest (str ''02-29-Miyako Day'')) = str ''1246b52e625d9167''"
    by code_simp
  have same: "month miyako_day = month ?e' \<and> day miyako_day = day ?e'
      \<and> name miyako_day = name ?e'"
    by simp
  from generate_uid_spec [of miyako_day ?e'] enc same
  have "generate_uid miyako_day
      = Inr (take 16 (sha256_hexdigest (str ''02-29-Miyako Day'')) @ str ''@touhou-calendar'')"
    and "generate_uid miyako_day = generate_uid ?e'"
    by blast+
  with h have "generate_uid miyako_day = Inr (str ''1246b52e625d9167@touhou-calendar'')"
    and "generate_uid ?e' = Inr (str ''1246b52e625d9167@touhou-calendar'')"
    by (simp_all add: str_def)
  with u enc show ?thesis
    by blast
qed

lemma vevent_description_short:
  assumes "explanation_short e = Some s" "s \<noteq> []"
  shows "vevent_description (e\<lparr>explanation := x\<rparr>) = vevent_description e"
  using assms by (simp add: vevent_description_def Let_def cong: if_cong)

lemma vevent_description_parts:
  assumes "vevent_description e = Inr d"
  shows "\<exists>rest. d = join [92, 110, 92, 110]
           (ics_escape (strip (message e))
            # ics_escape (strip (case explanation_short e of
                                   None \<Rightarrow> explanation e
                                 | Some s \<Rightarrow> if s = [] then explanation e else s))
            # rest)"
proof (cases "characters e = []")
  case True
  with assms show ?thesis
    by (intro exI [of _ "[]"]) (auto simp: vevent_description_def Let_def strip_strip)
next
  case False
  with assms obtain joined where "join_items (str '', '') (characters e) = Inr joined"
    by (auto simp: vevent_description_def Let_def split: sum.splits)
  with False assms show ?thesis
    by (intro exI [of _ "[ics_escape (strip (str ''Characters: '' @ joined))]"])
       (auto simp: vevent_description_def Let_def strip_strip)
qed

text \<open>
  Claim C6, as amended. When \<open>explanation_short\<close> is present and not the empty string, the
  description has the trimmed and escaped short explanation as its second part, and neither
  the description nor the VEVENT depends on \<open>explanation\<close>. When \<open>explanation_short\<close> is
  absent or the empty string, the second part is the trimmed and escaped \<open>explanation\<close>.
\<close>

theorem description_uses_short_explanation:
  "(explanation_short e = Some s \<and> s \<noteq> [] \<longrightarrow>
      vevent_description (e\<lparr>explanation := x\<rparr>) = vevent_description e
      \<and> build_vevent (e\<lparr>explanation := x\<rparr>) = build_vevent e
      \<and> (\<forall>d. vevent_description e = Inr d \<longrightarrow>
            (\<exists>rest. d = join [92, 110, 92, 110]
               (ics_escape (strip (message e)) # ics_escape (strip s) # rest))))
   \<and> (explanation_short e = None \<or> explanation_short e = Some [] \<longrightarrow>
      (\<forall>d. vevent_description e = Inr d \<longrightarrow>
            (\<exists>rest. d = join [92, 110, 92, 110]
               (ics_escape (strip (message e)) # ics_escape (strip (explanation e)) # rest))))"
proof (intro conjI allI impI)
  assume a: "explanation_short e = Some s \<and> s \<noteq> []"
  then show d: "vevent_description (e\<lparr>explanation := x\<rparr>) = vevent_description e"
    by (simp add: vevent_description_short)
  show "build_vevent (e\<lparr>explanation := x\<rparr>) = build_vevent e"
    by (simp add: build_vevent_def d generate_uid_def unique_string_def Let_def
        cong: sum.case_cong option.case_cong)
next
  fix d
  assume "explanation_short e = Some s \<and> s \<noteq> []" "vevent_description e = Inr d"
  with vevent_description_parts [of e d]
  show "\<exists>rest. d = join [92, 110, 92, 110]
          (ics_escape (strip (message e)) # ics_escape (strip s) # rest)"
    by simp
next
  fix d
  assume "explanation_short e = None \<or> explanation_short e = Some []"
    "vevent_description e = Inr d"
  with vevent_description_parts [of e d]
  show "\<exists>rest. d = join [92, 110, 92, 110]
          (ics_escape (strip (message e)) # ics_escape (strip (explanation e)) # rest)"
    by auto
qed

lemma utf8_encode_ascii: "list_all (\<lambda>c. c < 128) s \<Longrightarrow> utf8_encode s = Inr s"
  by (induction s) (simp_all add: utf8_char_def)

lemma ics_fold_line_ascii:
  "list_all (\<lambda>c. c < 128) s \<Longrightarrow> length s \<le> 75 \<Longrightarrow> ics_fold_line s = Some (Inr s)"
  by (simp add: ics_fold_line_def utf8_encode_ascii)

lemma dec_2024: "dec 2024 = [50, 48, 50, 52]"
  by (simp add: dec.simps [of 2024] dec.simps [of 202] dec.simps [of 20] dec.simps [of 2])

lemma miyako_uid: "generate_uid miyako_day = Inr (str ''1246b52e625d9167@touhou-calendar'')"
  by code_simp

lemma miyako_description:
  "vevent_description miyako_day = Inr (str ''M'' @ [92, 110, 92, 110] @ str ''E'')"
  by (simp add: vevent_description_def miyako_day_def str_def strip_def is_space_def
      ics_escape_hom escape_char_spec_def)

lemma miyako_dtstart:
  "date REFERENCE_YEAR (month miyako_day) (day miyako_day) = Inr (2024, 2, 29)"
  "strftime_Ymd (2024, 2, 29) = str ''20240229''"
  by (simp_all add: date_def REFERENCE_YEAR_def miyako_day_def days_in_month_def is_leap_def
      strftime_Ymd_def dec_2024 format_02d_def dec_digit dec_two str_def)

lemma miyako_summary: "ics_escape (name miyako_day) = str ''Miyako Day''"
  by (simp add: miyako_day_def str_def ics_escape_hom escape_char_spec_def)

lemma miyako_vevent:
  "build_vevent miyako_day = Some (Inr (join [13, 10]
     [str ''BEGIN:VEVENT'',
      str ''UID:1246b52e625d9167@touhou-calendar'',
      str ''DTSTART;VALUE=DATE:20240229'',
      str ''SUMMARY:Miyako Day'',
      str ''DESCRIPTION:M'' @ [92, 110, 92, 110] @ str ''E'',
      str ''RRULE:FREQ=YEARLY'',
      str ''TRANSP:TRANSPARENT'',
      str ''END:VEVENT'']))"
  by (simp add: build_vevent_def miyako_dtstart miyako_uid miyako_description miyako_summary
      str_def ics_fold_line_ascii)


theorem description_uses_short_explanation_witness:
  "explanation_short (miyako_day\<lparr>explanation_short := Some (str '' short, one '')\<rparr>)
     = Some (str '' short, one '')
   \<and> str '' short, one '' \<noteq> []
   \<and> build_vevent (miyako_day\<lparr>explanation_short := Some (str '' short, one ''),
                               explanation := str ''another''\<rparr>)
     = build_vevent (miyako_day\<lparr>explanation_short := Some (str '' short, one '')\<rparr>)
   \<and> vevent_description (miyako_day\<lparr>explanation_short := Some (str '' short, one '')\<rparr>)
     = Inr (str ''M'' @ [92, 110, 92, 110] @ str ''short'' @ [92] @ str '', one'')
   \<and> explanation_short miyako_day = None
   \<and> vevent_description miyako_day = Inr (str ''M'' @ [92, 110, 92, 110] @ str ''E'')"
proof -
  let ?e = "miyako_day\<lparr>explanation_short := Some (str '' short, one '')\<rparr>"
  have s: "explanation_short ?e = Some (str '' short, one '')"
    by simp
  have ne: "str '' short, one '' \<noteq> []"
    by (simp add: str_def)
  have n: "explanation_short miyako_day = None"
    by (simp add: miyako_day_def)
  from description_uses_short_explanation [of ?e "str '' short, one ''" "str ''another''"] s ne
  have "build_vevent (?e\<lparr>explanation := str ''another''\<rparr>) = build_vevent ?e"
    by blast
  then have b: "build_vevent (miyako_day\<lparr>explanation_short := Some (str '' short, one ''),
                               explanation := str ''another''\<rparr>) = build_vevent ?e"
    by (simp add: miyako_day_def)
  have d1: "vevent_description ?e
      = Inr (str ''M'' @ [92, 110, 92, 110] @ str ''short'' @ [92] @ str '', one'')"
    by (simp add: vevent_description_def miyako_day_def str_def strip_def is_space_def
        ics_escape_hom escape_char_spec_def)
  have d2: "vevent_description miyako_day = Inr (str ''M'' @ [92, 110, 92, 110] @ str ''E'')"
    by (rule miyako_description)
  from s ne b d1 n d2 show ?thesis
    by blast
qed

text \<open>
  The claim as first stated fails for a short explanation that is present and empty: the
  description then shows \<open>explanation\<close>.
\<close>

theorem description_empty_short_counterexample:
  "explanation_short (miyako_day\<lparr>explanation_short := Some []\<rparr>) = Some []
   \<and> vevent_description (miyako_day\<lparr>explanation_short := Some []\<rparr>)
     = Inr (str ''M'' @ [92, 110, 92, 110] @ str ''E'')
   \<and> ics_escape (strip []) = []
   \<and> str ''M'' @ [92, 110, 92, 110] @ str ''E'' \<noteq> str ''M'' @ [92, 110, 92, 110] @ []"
  by (simp add: vevent_description_def miyako_day_def str_def strip_def is_space_def
      ics_escape_hom escape_char_spec_def)

text \<open>
  Claim C1. The calendar built from the one event of 29 February (name \<open>Miyako Day\<close>,
  message \<open>M\<close>, explanation \<open>E\<close>, no short explanation, no characters) is the fifteen
  lines below, each ended by CRLF: one VEVENT, with \<open>DTSTART;VALUE=DATE:20240229\<close>,
  \<open>SUMMARY:Miyako Day\<close>, \<open>DESCRIPTION:M\n\nE\<close> (backslash and \<open>n\<close>, twice) and
  \<open>RRULE:FREQ=YEARLY\<close>.
\<close>

theorem build_ics_miyako_day:
  "let lines =
     [str ''BEGIN:VCALENDAR'',
      str ''VERSION:2.0'',
      str ''PRODID:-//Touhou Calendar//Touhou Calendar//EN'',
      str ''CALSCALE:GREGORIAN'',
      str ''METHOD:PUBLISH'',
      str ''X-WR-CALNAME:Touhou Calendar'',
      str ''BEGIN:VEVENT'',
      str ''UID:1246b52e625d9167@touhou-calendar'',
      str ''DTSTART;VALUE=DATE:20240229'',
      str ''SUMMARY:Miyako Day'',
      str ''DESCRIPTION:M'' @ [92, 110, 92, 110] @ str ''E'',
      str ''RRULE:FREQ=YEARLY'',
      str ''TRANSP:TRANSPARENT'',
      str ''END:VEVENT'',
      str ''END:VCALENDAR'']
   in build_ics [miyako_day] = Some (Inr (join [13, 10] lines @ [13, 10]))
      \<and> physical_lines (join [13, 10] lines @ [13, 10]) = lines @ [[]]
      \<and> count_list lines (str ''BEGIN:VEVENT'') = 1
      \<and> count_list lines (str ''END:VEVENT'') = 1"
  by (simp add: build_ics_def miyako_vevent str_def Let_def)

end
